theory Spec2Isabelle
  imports Main
begin

section \<open>Data model\<close>

text \<open>
  Byte slices are character lists. The node types and the operators are the constants of
  \<^verbatim>\<open>type Type int\<close> and \<^verbatim>\<open>type Op int\<close>. \<open>TypeCounter\<close> is used by the parser; \<open>TypeNone\<close>
  stands for the value \<^verbatim>\<open>-1\<close>, which is no node type: \<^verbatim>\<open>rollupSwitchNodes\<close> marks
  "no group yet" with it.
\<close>

type_synonym bytes = string

datatype Type =
    TypeRaw | TypeTpl | TypeCond | TypeCondTrue | TypeCondFalse
  | TypeLoopRange | TypeLoopCount | TypeBreak | TypeContinue | TypeCtx
  | TypeSwitch | TypeCase | TypeDefault | TypeDiv | TypeExit
  | TypeCounter | TypeNone

datatype Op = OpUnk | OpEq | OpNq | OpGt | OpGtq | OpLt | OpLtq | OpInc | OpDec

text \<open>\<^verbatim>\<open>func (o Op) Swap() Op\<close>\<close>

fun Swap :: "Op \<Rightarrow> Op" where
  "Swap OpGt = OpLt"
| "Swap OpGtq = OpLtq"
| "Swap OpLt = OpGt"
| "Swap OpLtq = OpGtq"
| "Swap o' = o'"

text \<open>
  The values of \<^verbatim>\<open>interface{}\<close> that the renderer tells apart: the nil interface, a
  string, a byte slice, and other scalars and sequences.
\<close>

datatype any = AnyNil | AnyStr string | AnyBytes bytes | AnyInt int | AnyBool bool | AnyList "any list"

text \<open>
  The sentinel errors of the package, and the errors that \<^verbatim>\<open>fmt.Errorf\<close> builds in the
  parser (with the control text and the offset they print). \<open>ErrNilFn\<close> is the run-time
  panic of calling through a nil \<^verbatim>\<open>*ModFn\<close>; \<open>ErrExt\<close> is an error of a collaborator
  outside the package.
\<close>

datatype error =
    ErrUnexpectedEOF | ErrBadCtl
  | ErrTplNotFound | ErrEmptyArg | ErrSenselessCond | ErrUnknownCtl
  | ErrBreakLoop | ErrContLoop | ErrInterrupt
  | ErrModNoArgs | ErrModPoorArgs
  | ErrCondComplex bytes nat | ErrLoopParse bytes nat | ErrUnknownStruct bytes nat
  | ErrAtoi bytes
  | ErrNilFn
  | ErrExt string

text \<open>
  The render context: the variable table, the error slot \<^verbatim>\<open>ctx.Err\<close>, and the scratch
  buffers \<^verbatim>\<open>ctx.buf\<close>, \<^verbatim>\<open>ctx.bbuf\<close> and \<^verbatim>\<open>ctx.modA\<close> that \<^verbatim>\<open>renderNode\<close> reads and writes.
\<close>

record Ctx =
  vars :: "(string \<times> any) list"
  Err :: "error option"
  buf :: any
  bbuf :: bytes
  modA :: "any list"

text \<open>
  A modifier as \<^verbatim>\<open>renderNode\<close> calls it, \<^verbatim>\<open>(*mod.fn)(ctx, &ctx.buf, ctx.buf, ctx.modA)\<close>:
  it gets the context, the value and the arguments, may replace \<^verbatim>\<open>ctx.buf\<close> through the
  pointer, and returns an error or nil.
\<close>

type_synonym ModFn = "Ctx \<Rightarrow> any \<Rightarrow> any list \<Rightarrow> Ctx \<times> error option"

record modArg =
  val :: bytes
  static :: bool
  ssc :: "string list"

text \<open>\<^verbatim>\<open>type mod struct { id []byte; fn *ModFn; arg []*modArg }\<close>; a nil \<^verbatim>\<open>fn\<close> is \<open>None\<close>.\<close>

record modT =
  id_mod :: bytes
  fn_mod :: "ModFn option"
  arg_mod :: "modArg list"

text \<open>
  The fields of \<^verbatim>\<open>Node\<close> other than \<^verbatim>\<open>typ\<close> and \<^verbatim>\<open>child\<close>. The static flags carry the
  names the renderer reads (\<^verbatim>\<open>condLStatic\<close>; the parser writes the same flag as
  \<^verbatim>\<open>condStaticL\<close>). The field \<^verbatim>\<open>mod\<close> is \<open>mods\<close> here.
\<close>

record Attrs =
  raw :: bytes
  rawStatic :: bool
  rawSsc :: "string list"
  prefix :: bytes
  suffix :: bytes
  ctxVar :: bytes
  ctxSrc :: bytes
  ctxSrcStatic :: bool
  ctxSrcSsc :: "string list"
  ctxIns :: bytes
  cntrVar :: bytes
  cntrInitF :: bool
  cntrInit :: int
  cntrOp :: Op
  cntrOpArg :: int
  condL :: bytes
  condR :: bytes
  condLStatic :: bool
  condRStatic :: bool
  condRSsc :: "string list"
  condOp :: Op
  condHlp :: bytes
  condHlpArg :: "modArg list"
  loopKey :: bytes
  loopVal :: bytes
  loopSrc :: bytes
  loopCnt :: bytes
  loopCntInit :: bytes
  loopCntStatic :: bool
  loopCntOp :: Op
  loopCondOp :: Op
  loopLim :: bytes
  loopLimStatic :: bool
  loopSep :: bytes
  switchArg :: bytes
  caseL :: bytes
  caseR :: bytes
  caseLStatic :: bool
  caseRStatic :: bool
  caseLSsc :: "string list"
  caseRSsc :: "string list"
  caseOp :: Op
  mods :: "modT list"

datatype Node = Node (typ_n: Type) (attrs: Attrs) (child: "Node list")

text \<open>The zero value of the fields, as in \<^verbatim>\<open>Node{}\<close>.\<close>

definition attrs0 :: Attrs where
  "attrs0 = \<lparr> raw = [], rawStatic = False, rawSsc = [], prefix = [], suffix = [],
     ctxVar = [], ctxSrc = [], ctxSrcStatic = False, ctxSrcSsc = [], ctxIns = [],
     cntrVar = [], cntrInitF = False, cntrInit = 0, cntrOp = OpUnk, cntrOpArg = 0,
     condL = [], condR = [], condLStatic = False, condRStatic = False, condRSsc = [],
     condOp = OpUnk, condHlp = [], condHlpArg = [],
     loopKey = [], loopVal = [], loopSrc = [], loopCnt = [], loopCntInit = [],
     loopCntStatic = False, loopCntOp = OpUnk, loopCondOp = OpUnk, loopLim = [],
     loopLimStatic = False, loopSep = [],
     switchArg = [], caseL = [], caseR = [], caseLStatic = False, caseRStatic = False,
     caseLSsc = [], caseRSsc = [], caseOp = OpUnk, mods = [] \<rparr>"

section \<open>The modifier registry\<close>

text \<open>
  \<^verbatim>\<open>modRegistry = map[string]ModFn{}\<close> is a map from names to functions, empty at the
  start; \<^verbatim>\<open>RegisterModFn\<close> and \<^verbatim>\<open>GetModFn\<close> take it and return it explicitly.
\<close>

type_synonym 'f registry = "string \<rightharpoonup> 'f"

definition modRegistry0 :: "'f registry" where
  "modRegistry0 = Map.empty"

definition RegisterModFn :: "string \<Rightarrow> string \<Rightarrow> 'f \<Rightarrow> 'f registry \<Rightarrow> 'f registry" where
  "RegisterModFn name alias' fn reg =
     (let reg1 = reg(name \<mapsto> fn)
      in if length alias' > 0 then reg1(alias' \<mapsto> fn) else reg1)"

definition GetModFn :: "'f registry \<Rightarrow> string \<Rightarrow> 'f option" where
  "GetModFn reg name = (case reg name of Some fn \<Rightarrow> Some fn | None \<Rightarrow> None)"

text \<open>A run of registrations, each a triple of name, alias and function, in order.\<close>

fun registerAll :: "(string \<times> string \<times> 'f) list \<Rightarrow> 'f registry \<Rightarrow> 'f registry" where
  "registerAll [] reg = reg"
| "registerAll ((name, alias', fn) # rs) reg = registerAll rs (RegisterModFn name alias' fn reg)"

text \<open>The keys a run of registrations writes: every name, and every alias that is not empty.\<close>

fun registeredKeys :: "(string \<times> string \<times> 'f) list \<Rightarrow> string set" where
  "registeredKeys [] = {}"
| "registeredKeys ((name, alias', fn) # rs) =
     (if length alias' > 0 then {name, alias'} else {name}) \<union> registeredKeys rs"

section \<open>Splitting and grouping of node lists\<close>

text \<open>\<^verbatim>\<open>func addNode\<close> and \<^verbatim>\<open>func addRaw\<close>\<close>

definition addNode :: "Node list \<Rightarrow> Node \<Rightarrow> Node list" where
  "addNode nodes node = nodes @ [node]"

definition addRaw :: "Node list \<Rightarrow> bytes \<Rightarrow> Node list" where
  "addRaw nodes r =
     (if length r = 0 then nodes else nodes @ [Node TypeRaw (attrs0\<lparr>raw := r\<rparr>) []])"

text \<open>
  \<^verbatim>\<open>func splitNodes\<close>: the loop runs over the index \<open>i\<close>, with \<open>o\<close> the start of the
  current part; \<^verbatim>\<open>nodes[o:i]\<close> is \<open>take (i - o) (drop o nodes)\<close>.
\<close>

function splitNodes_loop :: "Node list \<Rightarrow> nat \<Rightarrow> nat \<Rightarrow> Node list list \<Rightarrow> Node list list \<times> nat" where
  "splitNodes_loop nodes i o' split =
     (if i < length nodes then
        (if typ_n (nodes ! i) = TypeDiv
         then splitNodes_loop nodes (i + 1) (i + 1) (split @ [take (i - o') (drop o' nodes)])
         else splitNodes_loop nodes (i + 1) o' split)
      else (split, o'))"
  by pat_completeness auto
termination
  by (relation "measure (\<lambda>(nodes, i, o', split). length nodes - i)") auto

declare splitNodes_loop.simps [simp del]

definition splitNodes :: "Node list \<Rightarrow> Node list list" where
  "splitNodes nodes =
     (if length nodes = 0 then []
      else (let (split, o') = splitNodes_loop nodes 0 0 []
            in if o' < length nodes then split @ [drop o' nodes] else split))"

text \<open>
  \<^verbatim>\<open>func rollupSwitchNodes\<close>: the loop over the nodes, with the result \<open>r\<close> and the
  current group \<open>grp\<close>.
\<close>

fun rollup_loop :: "Node list \<Rightarrow> Node list \<Rightarrow> Node \<Rightarrow> Node list \<times> Node" where
  "rollup_loop [] r grp = (r, grp)"
| "rollup_loop (node # nodes) r grp =
     (if typ_n node \<noteq> TypeCase \<and> typ_n node \<noteq> TypeDefault \<and> typ_n grp = TypeNone
      then rollup_loop nodes r grp
      else if typ_n node = TypeCase \<or> typ_n node = TypeDefault
      then rollup_loop nodes (if typ_n grp \<noteq> TypeNone then r @ [grp] else r) node
      else rollup_loop nodes r (Node (typ_n grp) (attrs grp) (child grp @ [node])))"

definition rollupSwitchNodes :: "Node list \<Rightarrow> Node list" where
  "rollupSwitchNodes nodes =
     (if length nodes = 0 then []
      else (let (r, grp) = rollup_loop nodes [] (Node TypeNone attrs0 [])
            in if length (child grp) > 0 then r @ [grp] else r))"

section \<open>The renderer\<close>

text \<open>
  The collaborators of \<^verbatim>\<open>renderNode\<close> that are not among the sources are parameters:
  the methods \<^verbatim>\<open>getSsc\<close>, \<^verbatim>\<open>cmp\<close>, \<^verbatim>\<open>Set\<close>, \<^verbatim>\<open>SetBytes\<close> and \<^verbatim>\<open>cloop\<close> of the context
  (each returns the context it leaves behind), \<^verbatim>\<open>cbytealg.AnyToBytes\<close>,
  \<^verbatim>\<open>inspector.GetInspector\<close> (an inspector is known by its name), and \<open>ins_Loop\<close>, the
  elements (key and value) that the inspector of a range loop's source enumerates. The
  counting loop \<^verbatim>\<open>cloop\<close> gets the sink and returns the context and the sink it leaves.

  The output sink \<^verbatim>\<open>w io.Writer\<close> is the bytes it holds; \<open>w_Write\<close> is its method \<^verbatim>\<open>Write\<close>:
  from the bytes held and the bytes to write, the bytes held afterwards and the error
  returned. \<open>buffer_Write\<close> is the \<^verbatim>\<open>bytes.Buffer\<close> that \<^verbatim>\<open>Render\<close> passes: it appends and
  returns no error.
\<close>

record Env =
  ctx_getSsc :: "Ctx \<Rightarrow> bytes \<Rightarrow> string list \<Rightarrow> Ctx \<times> any"
  ctx_cmp :: "Ctx \<Rightarrow> bytes \<Rightarrow> Op \<Rightarrow> bytes \<Rightarrow> Ctx \<times> bool"
  ctx_Set :: "Ctx \<Rightarrow> string \<Rightarrow> any \<Rightarrow> string \<Rightarrow> Ctx"
  ctx_SetBytes :: "Ctx \<Rightarrow> string \<Rightarrow> bytes \<Rightarrow> Ctx"
  ctx_cloop :: "Ctx \<Rightarrow> Node \<Rightarrow> bytes \<Rightarrow> Ctx \<times> bytes"
  AnyToBytes :: "bytes \<Rightarrow> any \<Rightarrow> bytes \<times> error option"
  GetInspector :: "string \<Rightarrow> error + string"
  ins_Loop :: "Ctx \<Rightarrow> bytes \<Rightarrow> Ctx \<times> (any \<times> any \<times> string) list"
  w_Write :: "bytes \<Rightarrow> bytes \<Rightarrow> bytes \<times> error option"

definition buffer_Write :: "bytes \<Rightarrow> bytes \<Rightarrow> bytes \<times> error option" where
  "buffer_Write w b = (w @ b, None)"

text \<open>
  \<^verbatim>\<open>cntr int\<close> of \<^verbatim>\<open>RangeLoop\<close> is a 64-bit integer: \<^verbatim>\<open>rl.cntr++\<close> is \<open>int_wrap (cntr + 1)\<close>,
  which goes from \<open>2^63 - 1\<close> to \<open>- 2^63\<close>.
\<close>

definition int_wrap :: "int \<Rightarrow> int" where
  "int_wrap i = (i + 9223372036854775808) mod 18446744073709551616 - 9223372036854775808"

text \<open>\<^verbatim>\<open>inspector.LoopCtl\<close>, the answer of \<^verbatim>\<open>Iterate\<close>.\<close>

datatype LoopCtl = LoopCtlNone | LoopCtlBrk | LoopCtlCnt

text \<open>
  The arguments of one modifier: \<^verbatim>\<open>for _, arg := range mod.arg\<close>, appending to
  \<^verbatim>\<open>ctx.modA\<close>.
\<close>

fun mod_args :: "Env \<Rightarrow> modArg list \<Rightarrow> Ctx \<Rightarrow> Ctx" where
  "mod_args env [] ctx = ctx"
| "mod_args env (a # as) ctx =
     (if static a then mod_args env as (ctx\<lparr>modA := modA ctx @ [AnyBytes (val a)]\<rparr>)
      else (let (ctx1, v) = ctx_getSsc env ctx (val a) (ssc a)
            in mod_args env as (ctx1\<lparr>modA := modA ctx1 @ [v]\<rparr>)))"

text \<open>
  The modifier chain: \<^verbatim>\<open>for _, mod := range node.mod\<close>, from the value \<open>raw'\<close>. The result
  is the value after the chain, the context, and whether a nil \<^verbatim>\<open>fn\<close> was called
  (a run-time panic).
\<close>

fun apply_mods :: "Env \<Rightarrow> modT list \<Rightarrow> any \<Rightarrow> Ctx \<Rightarrow> any \<times> Ctx \<times> bool" where
  "apply_mods env [] raw' ctx = (raw', ctx, False)"
| "apply_mods env (m # ms) raw' ctx =
     (let ctx1 = mod_args env (arg_mod m) (ctx\<lparr>modA := []\<rparr>);
          ctx2 = ctx1\<lparr>buf := raw'\<rparr>
      in case fn_mod m of
           None \<Rightarrow> (raw', ctx2, True)
         | Some fn \<Rightarrow>
             (let (ctx3, e) = fn ctx2 (buf ctx2) (modA ctx2);
                  ctx4 = ctx3\<lparr>Err := e\<rparr>
              in if Err ctx4 \<noteq> None then (raw', ctx4, False)
                 else apply_mods env ms (buf ctx4) ctx4))"

text \<open>
  The comparison of a \<^verbatim>\<open>TypeCond\<close> node, which \<^verbatim>\<open>renderNode\<close> repeats for a \<^verbatim>\<open>TypeCase\<close>
  child of a switch without argument: from the check of the two static flags to the check
  of \<^verbatim>\<open>ctx.Err\<close>. \<open>Inl\<close> is an early return with that error, \<open>Inr\<close> is the value of \<^verbatim>\<open>r\<close>.
\<close>

definition compare_operands ::
  "Env \<Rightarrow> bytes \<Rightarrow> bytes \<Rightarrow> bool \<Rightarrow> bool \<Rightarrow> string list \<Rightarrow> Op \<Rightarrow> Ctx \<Rightarrow> (error + bool) \<times> Ctx" where
  "compare_operands env l r' sl sr rssc op ctx =
     (if sl \<and> sr then (Inl ErrSenselessCond, ctx)
      else if sr then
        (let (ctx1, r) = ctx_cmp env ctx l op r'
         in if Err ctx1 \<noteq> None then (Inl (the (Err ctx1)), ctx1) else (Inr r, ctx1))
      else if sl then
        (let (ctx1, r) = ctx_cmp env ctx r' (Swap op) l
         in if Err ctx1 \<noteq> None then (Inl (the (Err ctx1)), ctx1) else (Inr r, ctx1))
      else
        (let (ctx1, v) = ctx_getSsc env ctx r' rssc
         in if Err ctx1 = None then
              (let (bb, e) = AnyToBytes env [] (buf ctx1);
                   ctx2 = ctx1\<lparr>bbuf := bb\<rparr>
               in if e \<noteq> None then (Inl (the e), ctx2)
                  else (let (ctx3, r) = ctx_cmp env ctx2 l op (bbuf ctx2)
                        in if Err ctx3 \<noteq> None then (Inl (the (Err ctx3)), ctx3)
                           else (Inr r, ctx3)))
            else (Inl (the (Err ctx1)), ctx1)))"

text \<open>
  \<^verbatim>\<open>func (t *Tpl) renderNode\<close>, with the loops it runs over the children of a node:
  \<^item> \<open>renderChildren\<close>, the loop of the branch and case nodes, which stops at the first error;
  \<^item> \<open>switch_arg\<close> and \<open>switch_noarg\<close>, the two loops over the cases of a switch; \<open>Inl\<close> is a
    return from inside the loop, \<open>Inr\<close> the error and the flag \<^verbatim>\<open>r\<close> when the loop is left;
  \<^item> \<open>switch_default\<close>, the loop that looks for the default;
  \<^item> \<open>Iterate\<close>, that is \<^verbatim>\<open>func (rl *RangeLoop) Iterate\<close>, on the fields \<^verbatim>\<open>node\<close>, \<^verbatim>\<open>cntr\<close>,
    \<^verbatim>\<open>ctx\<close> and \<^verbatim>\<open>w\<close> of the loop object, and \<open>Iterate_children\<close>, its loop over the children;
    the last component of their results says that a child panicked;
  \<^item> \<open>rloop_elems\<close>, which calls \<^verbatim>\<open>Iterate\<close> once per element of a range loop.

  Modelled from the spec: \<^verbatim>\<open>Ctx.rloop\<close> and the inspector's loop, which are not among the
  sources. "Range loops: resolve the source expression through a value-inspector capability
  that can enumerate an arbitrary host value's elements, binding an optional key name and a
  value name into the Context for each element, then rendering the loop body's children
  once per element"; Break makes the loop "stop iterating". The binding is \<^verbatim>\<open>RequireKey\<close>,
  \<^verbatim>\<open>SetKey\<close> and \<^verbatim>\<open>SetVal\<close> of \<^verbatim>\<open>RangeLoop\<close>, the rendering is \<^verbatim>\<open>Iterate\<close>, and the counter
  \<^verbatim>\<open>cntr\<close> of the loop object starts at 0.
\<close>

function (sequential) renderNode :: "Env \<Rightarrow> Node \<Rightarrow> Ctx \<Rightarrow> bytes \<Rightarrow> error option \<times> Ctx \<times> bytes"
  and renderChildren :: "Env \<Rightarrow> Node list \<Rightarrow> Ctx \<Rightarrow> bytes \<Rightarrow> error option \<times> Ctx \<times> bytes"
  and switch_arg :: "Env \<Rightarrow> bytes \<Rightarrow> Node list \<Rightarrow> Ctx \<Rightarrow> bytes
      \<Rightarrow> (error option \<times> Ctx \<times> bytes) + (error option \<times> bool \<times> Ctx \<times> bytes)"
  and switch_noarg :: "Env \<Rightarrow> Node list \<Rightarrow> Ctx \<Rightarrow> bytes
      \<Rightarrow> (error option \<times> Ctx \<times> bytes) + (error option \<times> bool \<times> Ctx \<times> bytes)"
  and switch_default :: "Env \<Rightarrow> Node list \<Rightarrow> error option \<Rightarrow> Ctx \<Rightarrow> bytes \<Rightarrow> error option \<times> Ctx \<times> bytes"
  and Iterate_children :: "Env \<Rightarrow> Node list \<Rightarrow> Ctx \<Rightarrow> bytes \<Rightarrow> LoopCtl \<times> Ctx \<times> bytes \<times> bool"
  and Iterate :: "Env \<Rightarrow> Attrs \<Rightarrow> Node list \<Rightarrow> int \<Rightarrow> Ctx \<Rightarrow> bytes
      \<Rightarrow> LoopCtl \<times> int \<times> Ctx \<times> bytes \<times> bool"
  and rloop_elems :: "Env \<Rightarrow> Attrs \<Rightarrow> Node list \<Rightarrow> (any \<times> any \<times> string) list \<Rightarrow> int \<Rightarrow> Ctx \<Rightarrow> bytes
      \<Rightarrow> Ctx \<times> bytes \<times> bool"
where
  "renderNode env (Node TypeRaw a ch) ctx w =
     (let (w1, err) = w_Write env w (raw a) in (err, ctx, w1))"
| "renderNode env (Node TypeTpl a ch) ctx w =
     (let (ctx1, raw1) = (if rawStatic a then (ctx, AnyBytes (raw a))
                          else ctx_getSsc env ctx (raw a) (rawSsc a))
      in if Err ctx1 \<noteq> None then (Err ctx1, ctx1, w)
         else (let (raw2, ctx2, panic) =
                     (if length (mods a) > 0 then apply_mods env (mods a) raw1 ctx1
                      else (raw1, ctx1, False))
               in if panic then (Some ErrNilFn, ctx2, w)
                  else if Err ctx2 \<noteq> None then (None, ctx2, w)
                  else if raw2 = AnyNil \<or> raw2 = AnyStr [] then (Some ErrEmptyArg, ctx2, w)
                  else (let (bb, err) = AnyToBytes env (bbuf ctx2) raw2;
                            ctx3 = ctx2\<lparr>bbuf := bb\<rparr>
                        in if err = None
                           then (let w1 = (if length (prefix a) > 0
                                           then fst (w_Write env w (prefix a)) else w);
                                     (w2, werr) = w_Write env w1 (bbuf ctx3);
                                     w3 = (if length (suffix a) > 0
                                           then fst (w_Write env w2 (suffix a)) else w2)
                                 in (werr, ctx3, w3))
                           else (err, ctx3, w))))"
| "renderNode env (Node TypeCtx a ch) ctx w =
     (if ctxSrcStatic a then (None, ctx_SetBytes env ctx (ctxVar a) (ctxSrc a), w)
      else (case GetInspector env (ctxIns a) of
              Inl err \<Rightarrow> (Some err, ctx, w)
            | Inr ins \<Rightarrow>
                (let (ctx1, v) = ctx_getSsc env ctx (ctxSrc a) (ctxSrcSsc a)
                 in (None, ctx_Set env ctx1 (ctxVar a) v ins, w))))"
| "renderNode env (Node TypeCond a ch) ctx w =
     (case compare_operands env (condL a) (condR a) (condLStatic a) (condRStatic a)
             (condRSsc a) (condOp a) ctx of
        (Inl err, ctx1) \<Rightarrow> (Some err, ctx1, w)
      | (Inr r, ctx1) \<Rightarrow>
          (if r then (case ch of c0 # cs \<Rightarrow> renderNode env c0 ctx1 w | [] \<Rightarrow> (None, ctx1, w))
           else (case ch of c0 # c1 # cs \<Rightarrow> renderNode env c0 ctx1 w | _ \<Rightarrow> (None, ctx1, w))))"
| "renderNode env (Node TypeCondTrue a ch) ctx w = renderChildren env ch ctx w"
| "renderNode env (Node TypeCondFalse a ch) ctx w = renderChildren env ch ctx w"
| "renderNode env (Node TypeCase a ch) ctx w = renderChildren env ch ctx w"
| "renderNode env (Node TypeDefault a ch) ctx w = renderChildren env ch ctx w"
| "renderNode env (Node TypeLoopCount a ch) ctx w =
     (let (ctx1, w1) = ctx_cloop env ctx (Node TypeLoopCount a ch) w
      in if Err ctx1 \<noteq> None then (Err ctx1, ctx1, w1) else (None, ctx1, w1))"
| "renderNode env (Node TypeLoopRange a ch) ctx w =
     (let (ctx0, elems) = ins_Loop env ctx (loopSrc a);
          (ctx1, w1, panic) = rloop_elems env a ch elems 0 ctx0 w
      in if panic then (Some ErrNilFn, ctx1, w1)
         else if Err ctx1 \<noteq> None then (Err ctx1, ctx1, w1) else (None, ctx1, w1))"
| "renderNode env (Node TypeBreak a ch) ctx w = (Some ErrBreakLoop, ctx, w)"
| "renderNode env (Node TypeContinue a ch) ctx w = (Some ErrContLoop, ctx, w)"
| "renderNode env (Node TypeSwitch a ch) ctx w =
     (case (if length (switchArg a) > 0 then switch_arg env (switchArg a) ch ctx w
            else switch_noarg env ch ctx w) of
        Inl res \<Rightarrow> res
      | Inr (err, r, ctx1, w1) \<Rightarrow>
          (if \<not> r then switch_default env ch err ctx1 w1 else (err, ctx1, w1)))"
| "renderNode env (Node TypeExit a ch) ctx w = (Some ErrInterrupt, ctx, w)"
| "renderNode env (Node _ a ch) ctx w = (Some ErrUnknownCtl, ctx, w)"

| "renderChildren env [] ctx w = (None, ctx, w)"
| "renderChildren env (c # cs) ctx w =
     (let (err, ctx1, w1) = renderNode env c ctx w
      in if err \<noteq> None then (err, ctx1, w1) else renderChildren env cs ctx1 w1)"

| "switch_arg env sarg [] ctx w = Inr (None, False, ctx, w)"
| "switch_arg env sarg (c # cs) ctx w =
     (if typ_n c = TypeCase then
        (if caseLStatic (attrs c) then
           (let (ctx1, r) = ctx_cmp env ctx sarg OpEq (caseL (attrs c))
            in if r then (let (err, ctx2, w2) = renderNode env c ctx1 w
                          in Inr (err, True, ctx2, w2))
               else switch_arg env sarg cs ctx1 w)
         else
           (let (ctx1, v) = ctx_getSsc env ctx (caseL (attrs c)) (caseLSsc (attrs c))
            in if Err ctx1 = None then
                 (let (bb, err) = AnyToBytes env [] (buf ctx1);
                      ctx2 = ctx1\<lparr>bbuf := bb\<rparr>
                  in if err \<noteq> None then Inl (err, ctx2, w)
                     else (let (ctx3, r) = ctx_cmp env ctx2 sarg OpEq (bbuf ctx2)
                           in if r then (let (err, ctx4, w4) = renderNode env c ctx3 w
                                         in Inr (err, True, ctx4, w4))
                              else switch_arg env sarg cs ctx3 w))
               else switch_arg env sarg cs ctx1 w))
      else switch_arg env sarg cs ctx w)"

| "switch_noarg env [] ctx w = Inr (None, False, ctx, w)"
| "switch_noarg env (c # cs) ctx w =
     (if typ_n c = TypeCase then
        (case compare_operands env (caseL (attrs c)) (caseR (attrs c)) (caseLStatic (attrs c))
                (caseRStatic (attrs c)) (caseRSsc (attrs c)) (caseOp (attrs c)) ctx of
           (Inl err, ctx1) \<Rightarrow> Inl (Some err, ctx1, w)
         | (Inr r, ctx1) \<Rightarrow>
             (if r then (let (err, ctx2, w2) = renderNode env c ctx1 w
                         in Inr (err, True, ctx2, w2))
              else switch_noarg env cs ctx1 w))
      else switch_noarg env cs ctx w)"

| "switch_default env [] err ctx w = (err, ctx, w)"
| "switch_default env (c # cs) err ctx w =
     (if typ_n c = TypeDefault then renderNode env c ctx w
      else switch_default env cs err ctx w)"

| "Iterate_children env [] ctx w = (LoopCtlNone, ctx, w, False)"
| "Iterate_children env (c # cs) ctx w =
     (let (err, ctx1, w1) = renderNode env c ctx w
      in if err = Some ErrNilFn then (LoopCtlNone, ctx1, w1, True)
         else if err = Some ErrBreakLoop then (LoopCtlBrk, ctx1, w1, False)
         else if err = Some ErrContLoop then (LoopCtlCnt, ctx1, w1, False)
         else Iterate_children env cs ctx1 w1)"

| "Iterate env a ch cntr ctx w =
     (let w1 = (if cntr > 0 \<and> length (loopSep a) > 0
                then fst (w_Write env w (loopSep a)) else w);
          cntr1 = int_wrap (cntr + 1);
          (ctl, ctx1, w2, panic) = Iterate_children env ch ctx w1
      in (ctl, cntr1, ctx1, w2, panic))"

| "rloop_elems env a ch [] cntr ctx w = (ctx, w, False)"
| "rloop_elems env a ch ((k, v, ins) # es) cntr ctx w =
     (let ctx1 = (if length (loopKey a) > 0 then ctx_Set env ctx (loopKey a) k ins else ctx);
          ctx2 = ctx_Set env ctx1 (loopVal a) v ins;
          (ctl, cntr1, ctx3, w3, panic) = Iterate env a ch cntr ctx2 w
      in if panic then (ctx3, w3, True)
         else if ctl = LoopCtlBrk then (ctx3, w3, False)
         else rloop_elems env a ch es cntr1 ctx3 w3)"
  by pat_completeness auto
termination
  apply (relation "inv_image (less_than <*lex*> less_than)
    (case_sum
      (case_sum
        (case_sum (\<lambda>(env, n, ctx, w). (size n, 0::nat))
                  (\<lambda>(env, ns, ctx, w). (size_list size ns, 0)))
        (case_sum (\<lambda>(env, sarg, ns, ctx, w). (size_list size ns, 0))
                  (\<lambda>(env, ns, ctx, w). (size_list size ns, 0))))
      (case_sum
        (case_sum (\<lambda>(env, ns, err, ctx, w). (size_list size ns, 0))
                  (\<lambda>(env, ns, ctx, w). (size_list size ns, 0)))
        (case_sum (\<lambda>(env, a, ch, cntr, ctx, w). (size_list size ch, 1))
                  (\<lambda>(env, a, ch, es, cntr, ctx, w). (size_list size ch, 2 + length es)))))")
  apply (rule wf_inv_image)
  apply (rule wf_lex_prod)
  apply (rule wf_less_than)
  apply (rule wf_less_than)
  apply simp_all
  done

text \<open>
  \<^verbatim>\<open>func RenderTo\<close>. The registry \<^verbatim>\<open>tplRegistry\<close> maps an id to the nodes of the tree of
  its template; \<open>RenderTo_loop\<close> is the loop over \<^verbatim>\<open>tpl.tree.nodes\<close>.
\<close>

fun RenderTo_loop :: "Env \<Rightarrow> Node list \<Rightarrow> Ctx \<Rightarrow> bytes \<Rightarrow> error option \<times> Ctx \<times> bytes" where
  "RenderTo_loop env [] ctx w = (None, ctx, w)"
| "RenderTo_loop env (node # nodes) ctx w =
     (let (err, ctx1, w1) = renderNode env node ctx w
      in if err \<noteq> None then
           (if err = Some ErrInterrupt then (None, ctx1, w1) else (err, ctx1, w1))
         else RenderTo_loop env nodes ctx1 w1)"

definition RenderTo :: "(string \<rightharpoonup> Node list) \<Rightarrow> Env \<Rightarrow> bytes \<Rightarrow> string \<Rightarrow> Ctx \<Rightarrow> error option \<times> Ctx \<times> bytes" where
  "RenderTo tplRegistry env w id' ctx =
     (case tplRegistry id' of
        None \<Rightarrow> (Some ErrTplNotFound, ctx, w)
      | Some nodes \<Rightarrow> RenderTo_loop env nodes ctx w)"

section \<open>Conditions with the operands reversed\<close>

text \<open>
  The same condition written the other way round: the operands and their static flags
  change places and the operator is replaced by its swap, as \<^verbatim>\<open>5 < a\<close> becomes \<^verbatim>\<open>a > 5\<close>.
\<close>

definition reversed :: "Attrs \<Rightarrow> Attrs" where
  "reversed a = a\<lparr> condL := condR a, condR := condL a, condLStatic := condRStatic a,
                   condRStatic := condLStatic a, condOp := Swap (condOp a) \<rparr>"

section \<open>The loops of a switch as one search\<close>

text \<open>
  The loops of \<^verbatim>\<open>renderNode\<close> over the cases of a switch, written once more as the search
  for the first Case whose test answers true. \<open>arg_test\<close> and \<open>noarg_test\<close> are the bodies of
  the two loops for one Case: what \<open>switch_arg\<close> and \<open>switch_noarg\<close> do before they render
  the Case or go on, with the early returns as \<open>Inl\<close>. \<open>switch_search\<close> is proved equal to
  \<^verbatim>\<open>renderNode\<close> on a switch (\<open>renderNode_Switch_search\<close>) and serves the proofs about the
  output of a node.
\<close>

definition arg_test :: "Env \<Rightarrow> bytes \<Rightarrow> Node \<Rightarrow> Ctx \<Rightarrow> (error + bool) \<times> Ctx" where
  "arg_test env sarg c ctx =
     (if caseLStatic (attrs c) then
        (let (ctx1, r) = ctx_cmp env ctx sarg OpEq (caseL (attrs c)) in (Inr r, ctx1))
      else
        (let (ctx1, v) = ctx_getSsc env ctx (caseL (attrs c)) (caseLSsc (attrs c))
         in if Err ctx1 = None then
              (let (bb, err) = AnyToBytes env [] (buf ctx1);
                   ctx2 = ctx1\<lparr>bbuf := bb\<rparr>
               in if err \<noteq> None then (Inl (the err), ctx2)
                  else (let (ctx3, r) = ctx_cmp env ctx2 sarg OpEq (bbuf ctx2) in (Inr r, ctx3)))
            else (Inr False, ctx1)))"

definition noarg_test :: "Env \<Rightarrow> Node \<Rightarrow> Ctx \<Rightarrow> (error + bool) \<times> Ctx" where
  "noarg_test env c ctx =
     compare_operands env (caseL (attrs c)) (caseR (attrs c)) (caseLStatic (attrs c))
       (caseRStatic (attrs c)) (caseRSsc (attrs c)) (caseOp (attrs c)) ctx"

fun first_match :: "(Node \<Rightarrow> Ctx \<Rightarrow> (error + bool) \<times> Ctx) \<Rightarrow> Node list \<Rightarrow> Ctx
    \<Rightarrow> (error + Node option) \<times> Ctx" where
  "first_match test [] ctx = (Inr None, ctx)"
| "first_match test (c # cs) ctx =
     (if typ_n c = TypeCase then
        (case test c ctx of
           (Inl err, ctx1) \<Rightarrow> (Inl err, ctx1)
         | (Inr r, ctx1) \<Rightarrow> (if r then (Inr (Some c), ctx1) else first_match test cs ctx1))
      else first_match test cs ctx)"

definition switch_search :: "Env \<Rightarrow> Attrs \<Rightarrow> Node list \<Rightarrow> Ctx \<Rightarrow> bytes \<Rightarrow> error option \<times> Ctx \<times> bytes" where
  "switch_search env a ch ctx w =
     (case first_match (if switchArg a \<noteq> [] then arg_test env (switchArg a) else noarg_test env)
             ch ctx of
        (Inl err, ctx1) \<Rightarrow> (Some err, ctx1, w)
      | (Inr (Some c), ctx1) \<Rightarrow> renderChildren env (child c) ctx1 w
      | (Inr None, ctx1) \<Rightarrow>
          (case find (\<lambda>c. typ_n c = TypeDefault) ch of
             Some d \<Rightarrow> renderChildren env (child d) ctx1 w
           | None \<Rightarrow> (None, ctx1, w)))"

section \<open>The range loop in the words of the specification\<close>

text \<open>
  "between elements (but not before the first), the literal separator is written if
  declared": \<open>join\<close> puts the separator between the members of a list of outputs, and
  \<open>body_outs\<close> lists what the loop body writes in each iteration that runs, from the first
  element to the last, or to the one in which the body breaks.
\<close>

fun join :: "bytes \<Rightarrow> bytes list \<Rightarrow> bytes" where
  "join sep [] = []"
| "join sep [x] = x"
| "join sep (x # y # ys) = x @ sep @ join sep (y # ys)"

fun body_outs :: "Env \<Rightarrow> Attrs \<Rightarrow> Node list \<Rightarrow> (any \<times> any \<times> string) list \<Rightarrow> Ctx \<Rightarrow> bytes list" where
  "body_outs env a ch [] ctx = []"
| "body_outs env a ch ((k, v, ins) # es) ctx =
     (let ctx1 = (if length (loopKey a) > 0 then ctx_Set env ctx (loopKey a) k ins else ctx);
          ctx2 = ctx_Set env ctx1 (loopVal a) v ins;
          (ctl, ctx3, out, panic) = Iterate_children env ch ctx2 []
      in out # (if panic \<or> ctl = LoopCtlBrk then [] else body_outs env a ch es ctx3))"

text \<open>
  \<open>buffered\<close>: the sink appends and returns no error, as a \<^verbatim>\<open>bytes.Buffer\<close> does, and the
  counting loop, which gets the same sink, only appends too. \<open>appends\<close>: a node only appends
  to the output, and what it appends does not depend on the output so far.
\<close>

definition buffered :: "Env \<Rightarrow> bool" where
  "buffered env =
     (w_Write env = buffer_Write
      \<and> (\<forall>ctx n. \<exists>c' out. \<forall>w. ctx_cloop env ctx n w = (c', w @ out)))"

definition appends :: "Env \<Rightarrow> Node \<Rightarrow> bool" where
  "appends env n = (\<forall>ctx. \<exists>e c' out. \<forall>w. renderNode env n ctx w = (e, c', w @ out))"


section \<open>An environment for the examples\<close>

text \<open>
  A small context: \<^verbatim>\<open>getSsc\<close> looks a name up in the variable table, \<^verbatim>\<open>cmp\<close> compares an
  integer variable with a decimal literal (and byte values for equality), \<^verbatim>\<open>Set\<close> and
  \<^verbatim>\<open>SetBytes\<close> bind a variable, \<^verbatim>\<open>AnyToBytes\<close> converts strings and byte slices, and a
  range loop runs over the elements of a list value.
\<close>

fun digits_val :: "bytes \<Rightarrow> nat \<Rightarrow> nat" where
  "digits_val [] acc = acc"
| "digits_val (c # cs) acc = digits_val cs (acc * 10 + (of_char c - 48))"

definition cmp_int :: "Op \<Rightarrow> int \<Rightarrow> int \<Rightarrow> bool" where
  "cmp_int op i j = (case op of OpEq \<Rightarrow> i = j | OpNq \<Rightarrow> i \<noteq> j | OpGt \<Rightarrow> i > j
      | OpGtq \<Rightarrow> i \<ge> j | OpLt \<Rightarrow> i < j | OpLtq \<Rightarrow> i \<le> j | _ \<Rightarrow> False)"

definition demo_env :: Env where
  "demo_env = \<lparr>
     ctx_getSsc = (\<lambda>ctx p s.
        (let v = (case map_of (vars ctx) p of Some v \<Rightarrow> v | None \<Rightarrow> AnyNil)
         in (ctx\<lparr>buf := v\<rparr>, v))),
     ctx_cmp = (\<lambda>ctx l op r.
        (ctx, case map_of (vars ctx) l of
                Some (AnyInt i) \<Rightarrow> cmp_int op i (int (digits_val r 0))
              | Some (AnyBytes b) \<Rightarrow> (op = OpEq \<and> b = r) \<or> (op = OpNq \<and> b \<noteq> r)
              | _ \<Rightarrow> False)),
     ctx_Set = (\<lambda>ctx k v ins. ctx\<lparr>vars := (k, v) # vars ctx\<rparr>),
     ctx_SetBytes = (\<lambda>ctx k b. ctx\<lparr>vars := (k, AnyBytes b) # vars ctx\<rparr>),
     ctx_cloop = (\<lambda>ctx node w. (ctx, w)),
     AnyToBytes = (\<lambda>dst v.
        (case v of AnyBytes b \<Rightarrow> (b, None) | AnyStr b \<Rightarrow> (b, None)
         | _ \<Rightarrow> (dst, Some (ErrExt ''AnyToBytes'')))),
     GetInspector = (\<lambda>name. Inr name),
     ins_Loop = (\<lambda>ctx p.
        (ctx, case map_of (vars ctx) p of
                Some (AnyList xs) \<Rightarrow> map (\<lambda>x. (AnyNil, x, ''static'')) xs
              | _ \<Rightarrow> [])),
     w_Write = buffer_Write \<rparr>"

text \<open>
  The same environment with a comparator that also notes the call it gets, its three
  arguments, in \<^verbatim>\<open>ctx.modA\<close>.
\<close>

definition op_name :: "Op \<Rightarrow> string" where
  "op_name op = (case op of OpEq \<Rightarrow> ''=='' | OpNq \<Rightarrow> ''!='' | OpGt \<Rightarrow> ''>'' | OpGtq \<Rightarrow> ''>=''
      | OpLt \<Rightarrow> ''<'' | OpLtq \<Rightarrow> ''<='' | OpInc \<Rightarrow> ''++'' | OpDec \<Rightarrow> ''--'' | OpUnk \<Rightarrow> [])"

definition noting_env :: Env where
  "noting_env = demo_env\<lparr> ctx_cmp := (\<lambda>ctx l op r.
      (case ctx_cmp demo_env ctx l op r of
         (ctx1, b) \<Rightarrow> (ctx1\<lparr>modA := [AnyBytes l, AnyStr (op_name op), AnyBytes r]\<rparr>, b))) \<rparr>"

text \<open>A modifier for the examples: it strips leading blanks from a string value.\<close>

definition trim_mod :: ModFn where
  "trim_mod ctx v args =
     (case v of AnyStr s \<Rightarrow> (ctx\<lparr>buf := AnyStr (dropWhile (\<lambda>c. c = CHR '' '') s)\<rparr>, None)
      | _ \<Rightarrow> (ctx, None))"

definition demo_ctx :: "(string \<times> any) list \<Rightarrow> Ctx" where
  "demo_ctx vs = \<lparr> vars = vs, Err = None, buf = AnyNil, bbuf = [], modA = [] \<rparr>"

definition RawNode :: "bytes \<Rightarrow> Node" where
  "RawNode r = Node TypeRaw (attrs0\<lparr>raw := r\<rparr>) []"

text \<open>
  \<^verbatim>\<open>{% if x == 1 %}b{% exit %}c{% endif %}\<close>, and \<^verbatim>\<open>{% if x == 1 %}{% break %}{% endif %}\<close> with the
  Break or a Continue.
\<close>

definition exit_cond :: Node where
  "exit_cond = Node TypeCond (attrs0\<lparr>condL := ''x'', condR := ''1'', condRStatic := True, condOp := OpEq\<rparr>)
     [Node TypeCondTrue attrs0 [RawNode ''b'', Node TypeExit attrs0 [], RawNode ''c'']]"

definition signal_cond :: "Type \<Rightarrow> Node" where
  "signal_cond t = Node TypeCond (attrs0\<lparr>condL := ''x'', condR := ''1'', condRStatic := True, condOp := OpEq\<rparr>)
     [Node TypeCondTrue attrs0 [Node t attrs0 []]]"

text \<open>
  \<^verbatim>\<open>{% switch x %}{% case y %}A{% default %}D{% endswitch %}\<close>, the switch without
  discriminant \<^verbatim>\<open>{% switch %}{% case x == y %}A{% default %}D{% endswitch %}\<close>, and a print
  node \<^verbatim>\<open>{%= y|bad %}\<close> whose modifier returns an error.
\<close>

definition switch_xy :: Node where
  "switch_xy = Node TypeSwitch (attrs0\<lparr>switchArg := ''x''\<rparr>)
     [Node TypeCase (attrs0\<lparr>caseL := ''y''\<rparr>) [RawNode ''A''],
      Node TypeDefault attrs0 [RawNode ''D'']]"

definition switch_noarg_xy :: Node where
  "switch_noarg_xy = Node TypeSwitch attrs0
     [Node TypeCase (attrs0\<lparr>caseL := ''x'', caseR := ''y'', caseOp := OpEq\<rparr>) [RawNode ''A''],
      Node TypeDefault attrs0 [RawNode ''D'']]"

definition failing_print :: Node where
  "failing_print = Node TypeTpl
     (attrs0\<lparr>raw := ''y'',
        mods := [\<lparr>id_mod = ''bad'', fn_mod = Some (\<lambda>ctx v args. (ctx, Some ErrModNoArgs)),
                  arg_mod = []\<rparr>]\<rparr>) []"

lemmas demo_defs = Let_def demo_env_def demo_ctx_def RawNode_def attrs0_def compare_operands_def
  cmp_int_def buffer_Write_def


section \<open>Byte slices and regular expressions\<close>

text \<open>
  The functions of \<^verbatim>\<open>bytes\<close> and \<^verbatim>\<open>bytealg\<close> that the parser calls. \<^verbatim>\<open>bytealg.Trim\<close> drops
  the bytes of a cutset from both ends; \<^verbatim>\<open>bytes.Index\<close> is the index of the first
  occurrence of a separator (\<open>None\<close> for \<^verbatim>\<open>-1\<close>) and \<^verbatim>\<open>bytealg.IndexAt\<close> the same from an
  offset on; \<^verbatim>\<open>bytes.Split\<close> is needed for a separator of one byte only.
\<close>

definition Trim :: "bytes \<Rightarrow> bytes \<Rightarrow> bytes" where
  "Trim s cutset =
     rev (dropWhile (\<lambda>c. c \<in> set cutset) (rev (dropWhile (\<lambda>c. c \<in> set cutset) s)))"

fun hasPrefix :: "bytes \<Rightarrow> bytes \<Rightarrow> bool" where
  "hasPrefix s [] = True"
| "hasPrefix [] (c # cs) = False"
| "hasPrefix (x # xs) (c # cs) = (x = c \<and> hasPrefix xs cs)"

fun Index :: "bytes \<Rightarrow> bytes \<Rightarrow> nat option" where
  "Index [] sep = (if sep = [] then Some 0 else None)"
| "Index (x # xs) sep =
     (if hasPrefix (x # xs) sep then Some 0
      else (case Index xs sep of None \<Rightarrow> None | Some i \<Rightarrow> Some (i + 1)))"

definition IndexAt :: "bytes \<Rightarrow> bytes \<Rightarrow> nat \<Rightarrow> nat option" where
  "IndexAt s sep at =
     (if at \<ge> length s then None
      else (case Index (drop at s) sep of None \<Rightarrow> None | Some i \<Rightarrow> Some (i + at)))"

definition Contains :: "bytes \<Rightarrow> bytes \<Rightarrow> bool" where
  "Contains s sub = (Index s sub \<noteq> None)"

fun Split_acc :: "bytes \<Rightarrow> char \<Rightarrow> bytes \<Rightarrow> bytes list" where
  "Split_acc [] sep cur = [cur]"
| "Split_acc (x # xs) sep cur =
     (if x = sep then cur # Split_acc xs sep [] else Split_acc xs sep (cur @ [x]))"

definition Split :: "bytes \<Rightarrow> char \<Rightarrow> bytes list" where
  "Split s sep = Split_acc s sep []"

text \<open>
  The regular expressions of the parser, as far as its patterns use the syntax: a byte, a
  class and a negated class, \<^verbatim>\<open>.\<close> (any byte but the newline), \<^verbatim>\<open>^\<close>, sequence, alternation,
  the greedy star, and a numbered capture group. \<open>rematch n r s caps k\<close> matches \<open>r\<close> at
  the head of \<open>s\<close> and hands the rest of the text and the captures to the continuation
  \<open>k\<close>; \<open>n\<close> is the length of the whole text, so that \<^verbatim>\<open>^\<close> holds where the rest has that
  length. Alternatives are tried from left to right and the star takes as many rounds as
  it can before it gives one back, which is the leftmost-first match of \<^verbatim>\<open>regexp\<close>.
  \<open>refind\<close> looks for the leftmost start of a match, \<open>Match\<close> is \<^verbatim>\<open>(*Regexp).Match\<close>, and
  \<open>FindSubmatch\<close> is \<^verbatim>\<open>(*Regexp).FindSubmatch\<close>: \<open>None\<close> for nil, and for a match the text
  of each group (empty for a group that took no part).
\<close>

datatype re = Chr char | Cls "char list" | NCls "char list" | AnyChar | Bol | Eps
  | Seq re re | Alt re re | Star re | Grp nat re

type_synonym caps = "(nat \<times> bytes) list"

function rematch :: "nat \<Rightarrow> re \<Rightarrow> bytes \<Rightarrow> caps \<Rightarrow> (bytes \<Rightarrow> caps \<Rightarrow> 'r option) \<Rightarrow> 'r option" where
  "rematch n (Chr c) s cs k = (case s of [] \<Rightarrow> None | x # xs \<Rightarrow> if x = c then k xs cs else None)"
| "rematch n (Cls cl) s cs k = (case s of [] \<Rightarrow> None | x # xs \<Rightarrow> if x \<in> set cl then k xs cs else None)"
| "rematch n (NCls cl) s cs k = (case s of [] \<Rightarrow> None | x # xs \<Rightarrow> if x \<notin> set cl then k xs cs else None)"
| "rematch n AnyChar s cs k = (case s of [] \<Rightarrow> None | x # xs \<Rightarrow> if x \<noteq> CHR 0x0A then k xs cs else None)"
| "rematch n Bol s cs k = (if length s = n then k s cs else None)"
| "rematch n Eps s cs k = k s cs"
| "rematch n (Seq r1 r2) s cs k = rematch n r1 s cs (\<lambda>s' cs'. rematch n r2 s' cs' k)"
| "rematch n (Alt r1 r2) s cs k =
     (case rematch n r1 s cs k of Some x \<Rightarrow> Some x | None \<Rightarrow> rematch n r2 s cs k)"
| "rematch n (Star r) s cs k =
     (case rematch n r s cs
             (\<lambda>s' cs'. if length s' < length s then rematch n (Star r) s' cs' k else None) of
        Some x \<Rightarrow> Some x
      | None \<Rightarrow> k s cs)"
| "rematch n (Grp i r) s cs k =
     rematch n r s cs (\<lambda>s' cs'. k s' ((i, take (length s - length s') s) # cs'))"
  by pat_completeness auto
termination
  by (relation "inv_image (less_than <*lex*> less_than) (\<lambda>(n, r, s, cs, k). (size r, length s))")
     auto

definition lit :: "bytes \<Rightarrow> re" where
  "lit s = foldr (\<lambda>c r. Seq (Chr c) r) s Eps"

definition seqs :: "re list \<Rightarrow> re" where
  "seqs rs = foldr Seq rs Eps"

definition alts :: "re list \<Rightarrow> re" where
  "alts rs = foldr Alt (butlast rs) (last rs)"

definition Plus :: "re \<Rightarrow> re" where
  "Plus r = Seq r (Star r)"

fun refind :: "nat \<Rightarrow> re \<Rightarrow> bytes \<Rightarrow> (bytes \<times> caps) option" where
  "refind n r [] = rematch n r [] [] (\<lambda>s' cs. Some (s', cs))"
| "refind n r (x # xs) =
     (case rematch n r (x # xs) [] (\<lambda>s' cs. Some (s', cs)) of
        Some m \<Rightarrow> Some m
      | None \<Rightarrow> refind n r xs)"

definition Match :: "re \<Rightarrow> bytes \<Rightarrow> bool" where
  "Match r t = (refind (length t) r t \<noteq> None)"

definition FindSubmatch :: "re \<Rightarrow> bytes \<Rightarrow> (nat \<Rightarrow> bytes) option" where
  "FindSubmatch r t =
     (case refind (length t) r t of
        None \<Rightarrow> None
      | Some (rest, cs) \<Rightarrow> Some (\<lambda>i. case map_of cs i of None \<Rightarrow> [] | Some b \<Rightarrow> b))"

text \<open>
  \<^verbatim>\<open>re.ReplaceAll(s, empty)\<close> for an expression without \<^verbatim>\<open>^\<close> that matches no empty text: the
  matches are cut out from left to right.
\<close>

function ReplaceAll_empty :: "re \<Rightarrow> bytes \<Rightarrow> bytes" where
  "ReplaceAll_empty r s =
     (case s of
        [] \<Rightarrow> []
      | x # xs \<Rightarrow>
          (case rematch 0 r s [] (\<lambda>s' cs. Some s') of
             Some rest \<Rightarrow>
               (if length rest < length s then ReplaceAll_empty r rest
                else x # ReplaceAll_empty r xs)
           | None \<Rightarrow> x # ReplaceAll_empty r xs))"
  by pat_completeness auto
termination
  by (relation "measure (\<lambda>(r, s). length s)") auto

declare ReplaceAll_empty.simps [simp del]

text \<open>
  \<^verbatim>\<open>strconv.Atoi\<close> on the digit strings the patterns hand to it: the value, or an error when
  the text is not a number or exceeds the 64-bit range.
\<close>

fun atoi_digits :: "bytes \<Rightarrow> nat \<Rightarrow> nat" where
  "atoi_digits [] acc = acc"
| "atoi_digits (c # s) acc = atoi_digits s (acc * 10 + (of_char c - 48))"

definition Atoi :: "bytes \<Rightarrow> error + int" where
  "Atoi s =
     (if s = [] \<or> filter (\<lambda>c. c \<notin> set ''0123456789'') s \<noteq> [] then Inl (ErrAtoi s)
      else if atoi_digits s 0 > 9223372036854775807 then Inl (ErrAtoi s)
      else Inr (int (atoi_digits s 0)))"

text \<open>
  The patterns of \<^verbatim>\<open>src/init.go\<close>. \<open>space_cls\<close>, \<open>digit_cls\<close> and \<open>word_cls\<close> are \<^verbatim>\<open>\s\<close>, \<^verbatim>\<open>\d\<close>
  and \<^verbatim>\<open>\w\<close>; \<open>ws\<close> is \<^verbatim>\<open>\s*\<close>, \<open>dots\<close> is \<^verbatim>\<open>.*\<close>, \<open>outmode\<close> is the group
  \<^verbatim>\<open>([jhqu]*|[fF]\.*\d*)\<close>, and the \<open>kw\<close> expressions are the groups of keywords that are
  not captured.
\<close>

definition space_cls :: "char list" where
  "space_cls = [CHR 0x09, CHR 0x0A, CHR 0x0C, CHR 0x0D, CHR '' '']"
definition digit_cls :: "char list" where
  "digit_cls = ''0123456789''"
definition word_cls :: "char list" where
  "word_cls = ''0123456789ABCDEFGHIJKLMNOPQRSTUVWXYZ_abcdefghijklmnopqrstuvwxyz''"

definition ws :: re where "ws = Star (Cls space_cls)"
definition dots :: re where "dots = Star AnyChar"
definition outmode :: re where
  "outmode = Grp 1 (Alt (Star (Cls ''jhqu''))
                        (seqs [Cls ''fF'', Star (Chr (CHR ''.'')), Star (Cls digit_cls)]))"
definition kw_prefix :: re where "kw_prefix = Alt (lit ''prefix'') (lit ''pfx'')"
definition kw_suffix :: re where "kw_suffix = Alt (lit ''suffix'') (lit ''sfx'')"
definition kw_sep :: re where "kw_sep = Star (Alt (lit ''separator'') (lit ''sep''))"
definition kw_cntr :: re where "kw_cntr = Alt (lit ''counter'') (lit ''cntr'')"

definition reCutComments :: re where
  "reCutComments = seqs [Star (Chr (CHR 0x09)), lit ''{#'', Star (NCls ''#''), lit ''#}'',
     Star (Chr (CHR 0x0A))]"
definition reCutFmt :: re where
  "reCutFmt = seqs [Plus (Chr (CHR 0x0A)), Star (Chr (CHR 0x09)), ws]"

definition reTplPS :: re where
  "reTplPS = seqs [Bol, outmode, lit ''='', ws, Grp 2 dots, lit '' '', kw_prefix, lit '' '',
     Grp 3 dots, lit '' '', kw_suffix, lit '' '', Grp 4 dots]"
definition reTplP :: re where
  "reTplP = seqs [Bol, outmode, lit ''='', ws, Grp 2 dots, lit '' '', kw_prefix, lit '' '', Grp 3 dots]"
definition reTplS :: re where
  "reTplS = seqs [Bol, outmode, lit ''='', ws, Grp 2 dots, lit '' '', kw_suffix, lit '' '', Grp 3 dots]"
definition reTpl :: re where
  "reTpl = seqs [Bol, outmode, lit ''= '', Grp 2 dots]"
definition reModPfxF :: re where
  "reModPfxF = seqs [Grp 1 (Plus (Cls ''fF'')), Star (Chr (CHR ''.'')), Grp 2 (Star (Cls digit_cls))]"
definition reMod :: re where
  "reMod = seqs [Grp 1 (Plus (NCls ''('')), Star (Chr (CHR ''('')), Grp 2 (Star (NCls '')'')),
     Star (Chr (CHR '')''))]"

definition reCtx :: re where
  "reCtx = seqs [Alt (lit ''context'') (lit ''ctx''), lit '' '', Grp 1 (Plus (Cls word_cls)), ws,
     lit ''='', ws, Grp 2 (Plus (Cls (word_cls @ ''.''))), ws, Star (Cls ''as''), ws,
     Grp 3 (Star (Cls word_cls))]"

definition reCntr :: re where
  "reCntr = seqs [kw_cntr, lit '' '', Grp 1 (Plus (Cls word_cls))]"
definition reCntrInit :: re where
  "reCntrInit = seqs [kw_cntr, lit '' '', Grp 1 (Plus (Cls word_cls)), ws, lit ''='', ws,
     Grp 2 (Plus (Cls digit_cls))]"
definition reCntrOp0 :: re where
  "reCntrOp0 = seqs [kw_cntr, lit '' '', Grp 1 (Plus (Cls word_cls)),
     Grp 2 (Alt (lit ''++'') (lit ''--''))]"
definition reCntrOp1 :: re where
  "reCntrOp1 = seqs [kw_cntr, lit '' '', Grp 1 (Plus (Cls word_cls)),
     Grp 2 (Alt (Seq (lit ''+'') (Plus (Cls digit_cls))) (Seq (lit ''-'') (Plus (Cls digit_cls))))]"

definition reCond :: re where
  "reCond = seqs [lit ''if '', dots]"
definition reCondExpr :: re where
  "reCondExpr = seqs [lit ''if '', Grp 1 dots,
     Grp 2 (alts [lit ''=='', lit ''!='', lit ''>='', lit ''<='', lit ''>'', lit ''<'']),
     Grp 3 dots]"
definition reCondHelper :: re where
  "reCondHelper = seqs [lit ''if '', Grp 1 (Plus (NCls ''('')), Star (Chr (CHR ''('')),
     Grp 2 (Star (NCls '')'')), lit '')'']"
definition reCondComplex :: re where
  "reCondComplex = alts [seqs [lit ''if '', dots, lit ''&&''], lit ''||'', lit ''('',
     seqs [lit '')'', dots]]"

definition reLoop :: re where
  "reLoop = seqs [lit ''for '', dots]"
definition reLoopRange :: re where
  "reLoopRange = seqs [lit ''for '', Grp 1 (Plus (NCls '':'')), ws, Star (Chr (CHR '':'')), lit ''='',
     ws, lit ''range'', ws, Grp 2 (Star (NCls space_cls)), ws, kw_sep, ws, Grp 3 dots]"
definition reLoopCount :: re where
  "reLoopCount = seqs [lit ''for '', Grp 1 (Star (Cls word_cls)), ws, Star (Chr (CHR '':'')), lit ''='',
     ws, Grp 2 (Plus (Cls word_cls)), ws, lit '';'', ws, Plus (Cls word_cls), ws,
     Plus (Grp 3 (alts [lit ''<'', lit ''<='', lit ''>'', lit ''>='', lit ''!=''])), ws,
     Grp 4 (Plus (NCls '';'')), ws, lit '';'', ws, Star (Cls word_cls),
     Plus (Grp 5 (Alt (lit ''--'') (lit ''++''))), ws, kw_sep, ws, Grp 6 dots]"

definition reSwitch :: re where
  "reSwitch = seqs [Bol, lit ''switch'', ws, Grp 1 dots]"
definition reSwitchCase :: re where
  "reSwitchCase = seqs [lit ''case '', Grp 1 (Plus (NCls ''<=>!'')),
     Star (Grp 2 (Seq (Cls ''<=>!'') (Cls ''<=>!''))), Grp 3 dots]"

lemmas re_defs = Match_def FindSubmatch_def seqs_def alts_def lit_def Plus_def
  space_cls_def digit_cls_def word_cls_def ws_def dots_def outmode_def kw_prefix_def kw_suffix_def
  kw_sep_def kw_cntr_def reCutComments_def reCutFmt_def reTplPS_def reTplP_def reTplS_def reTpl_def
  reModPfxF_def reMod_def reCtx_def reCntr_def reCntrInit_def reCntrOp0_def reCntrOp1_def
  reCond_def reCondExpr_def reCondHelper_def reCondComplex_def reLoop_def reLoopRange_def
  reLoopCount_def reSwitch_def reSwitchCase_def

section \<open>The parser\<close>

text \<open>
  What the parser takes from the package and is not among the sources, or is global state:
  the function \<^verbatim>\<open>isStatic\<close> and the registry of modifiers \<^verbatim>\<open>modRegistry\<close>.
\<close>

record Pkg =
  isStatic :: "bytes \<Rightarrow> bool"
  modRegistry :: "ModFn registry"

text \<open>
  \<^verbatim>\<open>type Parser struct\<close>, with the depth counters as integers, and \<^verbatim>\<open>type target\<close>, a map
  with the three keys \<^verbatim>\<open>targetCond\<close>, \<^verbatim>\<open>targetLoop\<close> and \<^verbatim>\<open>targetSwitch\<close>, as a triple.
\<close>

record Parser =
  keepFmt :: bool
  tpl :: bytes
  cc :: int
  cl :: int
  cs :: int

type_synonym target = "int \<times> int \<times> int"

text \<open>The byte constants of the parser (\<open>loopCnt_kw\<close> is the variable \<^verbatim>\<open>loopCnt\<close>).\<close>

definition space :: bytes where "space = '' ''"
definition comma :: char where "comma = CHR '',''"
definition uscore :: bytes where "uscore = ''_''"
definition vline :: char where "vline = CHR ''|''"
definition quotes :: bytes where "quotes = [CHR 0x22, CHR 0x27, CHR 0x60]"
definition noFmt :: bytes where "noFmt = [CHR '' '', CHR 0x09, CHR 0x0A]"
definition ctlExit :: bytes where "ctlExit = ''exit''"
definition ctlOpen :: bytes where "ctlOpen = ''{%''"
definition ctlClose :: bytes where "ctlClose = ''%}''"
definition ctlTrim :: bytes where "ctlTrim = ''{}% ''"
definition ctlTrimAll :: bytes where "ctlTrimAll = ''{}%= ''"
definition ctxStatic :: bytes where "ctxStatic = ''static''"
definition condElse :: bytes where "condElse = ''else''"
definition condEnd :: bytes where "condEnd = ''endif''"
definition loopEnd :: bytes where "loopEnd = ''endfor''"
definition loopBrk :: bytes where "loopBrk = ''break''"
definition loopCnt_kw :: bytes where "loopCnt_kw = ''continue''"
definition swDefault :: bytes where "swDefault = ''default''"
definition swEnd :: bytes where "swEnd = ''endswitch''"

text \<open>\<^verbatim>\<open>newTarget\<close>, \<^verbatim>\<open>reached\<close>, \<^verbatim>\<open>eqZero\<close>, \<^verbatim>\<open>cutComments\<close>, \<^verbatim>\<open>cutFmt\<close> and \<^verbatim>\<open>parseOp\<close>\<close>

definition newTarget :: "Parser \<Rightarrow> target" where
  "newTarget p = (cc p, cl p, cs p)"

definition reached :: "target \<Rightarrow> Parser \<Rightarrow> bool" where
  "reached t p = (case t of (tc, tl', ts) \<Rightarrow> tc = cc p \<and> tl' = cl p \<and> ts = cs p)"

definition eqZero :: "target \<Rightarrow> bool" where
  "eqZero t = (case t of (tc, tl', ts) \<Rightarrow> tc = 0 \<and> tl' = 0 \<and> ts = 0)"

definition cutComments :: "Parser \<Rightarrow> Parser" where
  "cutComments p = p\<lparr>tpl := ReplaceAll_empty reCutComments (tpl p)\<rparr>"

definition cutFmt :: "Parser \<Rightarrow> Parser" where
  "cutFmt p =
     (if keepFmt p then p
      else p\<lparr>tpl := Trim (ReplaceAll_empty reCutFmt (tpl p)) noFmt\<rparr>)"

definition parseOp :: "bytes \<Rightarrow> Op" where
  "parseOp src =
     (if src = ''=='' then OpEq
      else if src = ''!='' then OpNq
      else if src = ''>'' then OpGt
      else if src = ''>='' then OpGtq
      else if src = ''<'' then OpLt
      else if src = ''<='' then OpLtq
      else if src = ''++'' then OpInc
      else if src = ''--'' then OpDec
      else OpUnk)"

text \<open>
  \<^verbatim>\<open>extractArgs\<close> and \<^verbatim>\<open>extractMods\<close>. In \<^verbatim>\<open>extractMods\<close>, \<open>chunkMods\<close> is one round of the
  loop over the chunks after the first, \<open>outmMod\<close> one of the four tests of the output
  mode, and \<open>precMod\<close> the switch on the precision prefix.
\<close>

definition extractArgs :: "Pkg \<Rightarrow> bytes \<Rightarrow> modArg list" where
  "extractArgs d l =
     (if length l = 0 then []
      else map (\<lambda>a. let a' = Trim a space
                     in \<lparr>val = Trim a' quotes, static = isStatic d a', ssc = []\<rparr>)
               (Split l comma))"

definition chunkMods :: "Pkg \<Rightarrow> bytes \<Rightarrow> modT list" where
  "chunkMods d chunk =
     (case FindSubmatch reMod chunk of
        None \<Rightarrow> []
      | Some m \<Rightarrow>
          (case GetModFn (modRegistry d) (m 1) of
             None \<Rightarrow> []
           | Some fn \<Rightarrow> [\<lparr>id_mod = m 1, fn_mod = Some fn, arg_mod = extractArgs d (m 2)\<rparr>]))"

definition outmMod :: "Pkg \<Rightarrow> bytes \<Rightarrow> bytes \<Rightarrow> string \<Rightarrow> modT list" where
  "outmMod d outm key name =
     (if outm = key
      then [\<lparr>id_mod = name, fn_mod = GetModFn (modRegistry d) name, arg_mod = []\<rparr>]
      else [])"

definition precMod :: "Pkg \<Rightarrow> bytes \<Rightarrow> modT list" where
  "precMod d outm =
     (case FindSubmatch reModPfxF outm of
        None \<Rightarrow> []
      | Some m \<Rightarrow>
          (if hd (m 1) = CHR ''f''
           then [\<lparr>id_mod = ''floorPrec'', fn_mod = GetModFn (modRegistry d) ''floorPrec'',
                   arg_mod = [\<lparr>val = m 2, static = True, ssc = []\<rparr>]\<rparr>]
           else if hd (m 1) = CHR ''F''
           then [\<lparr>id_mod = ''ceilPrec'', fn_mod = GetModFn (modRegistry d) ''ceilPrec'',
                   arg_mod = [\<lparr>val = m 2, static = True, ssc = []\<rparr>]\<rparr>]
           else []))"

definition extractMods :: "Pkg \<Rightarrow> bytes \<Rightarrow> bytes \<Rightarrow> bytes \<times> modT list" where
  "extractMods d t outm =
     (if Contains t [vline] \<or> length outm > 0 then
        (let chunks = Split t vline
         in (hd chunks,
             concat (map (chunkMods d) (tl chunks))
             @ outmMod d outm ''j'' ''jsonEscape''
             @ outmMod d outm ''q'' ''jsonQuote''
             @ outmMod d outm ''h'' ''htmlEscape''
             @ outmMod d outm ''u'' ''urlEncode''
             @ precMod d outm))
      else (t, []))"

text \<open>
  The parts of \<^verbatim>\<open>processCtl\<close> that fill the fields of \<^verbatim>\<open>root\<close> from the matches, one per
  kind of control structure: the node of a print, of a context and of a counter structure
  (or the error of \<^verbatim>\<open>strconv.Atoi\<close>), \<^verbatim>\<open>parseCondExpr\<close> and \<^verbatim>\<open>parseCaseExpr\<close>, the two
  children that a condition gets from the parts of its body, and the type and the fields
  of a loop node (\<open>None\<close> when neither pattern of a loop matches).
\<close>

definition tplNode :: "Pkg \<Rightarrow> bytes \<Rightarrow> Node" where
  "tplNode d t =
     (case FindSubmatch reTplPS t of
        Some m \<Rightarrow>
          (let (r, ms) = extractMods d (m 2) (m 1)
           in Node TypeTpl (attrs0\<lparr>raw := r, mods := ms, prefix := m 3, suffix := m 4\<rparr>) [])
      | None \<Rightarrow>
     (case FindSubmatch reTplP t of
        Some m \<Rightarrow>
          (let (r, ms) = extractMods d (m 2) (m 1)
           in Node TypeTpl (attrs0\<lparr>raw := r, mods := ms, prefix := m 3\<rparr>) [])
      | None \<Rightarrow>
     (case FindSubmatch reTplS t of
        Some m \<Rightarrow>
          (let (r, ms) = extractMods d (m 2) (m 1)
           in Node TypeTpl (attrs0\<lparr>raw := r, mods := ms, suffix := m 3\<rparr>) [])
      | None \<Rightarrow>
     (case FindSubmatch reTpl t of
        Some m \<Rightarrow>
          (let (r, ms) = extractMods d (Trim (m 2) ctlTrimAll) (m 1)
           in Node TypeTpl (attrs0\<lparr>raw := r, mods := ms\<rparr>) [])
      | None \<Rightarrow>
          (let (r, ms) = extractMods d (Trim t ctlTrimAll) []
           in Node TypeTpl (attrs0\<lparr>raw := r, mods := ms\<rparr>) [])))))"

definition ctxNode :: "Pkg \<Rightarrow> bytes \<Rightarrow> Node" where
  "ctxNode d t =
     (case FindSubmatch reCtx t of
        Some m \<Rightarrow>
          Node TypeCtx (attrs0\<lparr>ctxVar := m 1, ctxSrc := m 2, ctxSrcStatic := isStatic d (m 2),
            ctxIns := (if length (m 3) > 0 then m 3 else ctxStatic)\<rparr>) []
      | None \<Rightarrow> Node TypeCtx attrs0 [])"

definition cntrNode :: "bytes \<Rightarrow> error + Node" where
  "cntrNode t =
     (case FindSubmatch reCntrInit t of
        Some m \<Rightarrow>
          (case Atoi (m 2) of
             Inl e \<Rightarrow> Inl e
           | Inr i \<Rightarrow>
               Inr (Node TypeCounter (attrs0\<lparr>cntrVar := m 1, cntrInitF := True, cntrInit := i\<rparr>) []))
      | None \<Rightarrow>
     (case FindSubmatch reCntrOp0 t of
        Some m \<Rightarrow>
          Inr (Node TypeCounter (attrs0\<lparr>cntrVar := m 1,
                 cntrOp := (if m 2 = ''--'' then OpDec else OpInc), cntrOpArg := 1\<rparr>) [])
      | None \<Rightarrow>
     (case FindSubmatch reCntrOp1 t of
        Some m \<Rightarrow>
          (case Atoi (tl (m 2)) of
             Inl e \<Rightarrow> Inl e
           | Inr a \<Rightarrow>
               Inr (Node TypeCounter (attrs0\<lparr>cntrVar := m 1,
                      cntrOp := (if hd (m 2) = CHR ''-'' then OpDec else OpInc),
                      cntrOpArg := a\<rparr>) []))
      | None \<Rightarrow> Inr (Node TypeCounter attrs0 []))))"

definition parseCondExpr :: "Pkg \<Rightarrow> bytes \<Rightarrow> bytes \<times> bytes \<times> bool \<times> bool \<times> Op" where
  "parseCondExpr d expr =
     (case FindSubmatch reCondExpr expr of
        Some m \<Rightarrow>
          (let l = Trim (m 1) space; r = Trim (m 3) space
           in (l, r, isStatic d l, isStatic d r, parseOp (m 2)))
      | None \<Rightarrow> ([], [], False, False, OpUnk))"

definition parseCaseExpr :: "Pkg \<Rightarrow> bytes \<Rightarrow> bytes \<times> bytes \<times> bool \<times> bool \<times> Op" where
  "parseCaseExpr d expr =
     (case FindSubmatch reSwitchCase expr of
        Some m \<Rightarrow>
          (let l = Trim (m 1) space; r = Trim (m 3) space
           in (l, r, isStatic d l, isStatic d r, parseOp (m 2)))
      | None \<Rightarrow> ([], [], False, False, OpUnk))"

definition condChildren :: "Node list list \<Rightarrow> Node list" where
  "condChildren split =
     (if length split > 0 then [Node TypeCondTrue attrs0 (split ! 0)] else [])
     @ (if length split > 1 then [Node TypeCondFalse attrs0 (split ! 1)] else [])"

definition condAttrs :: "Pkg \<Rightarrow> bytes \<Rightarrow> Attrs" where
  "condAttrs d t =
     (let (l, r, sl, sr, op) = parseCondExpr d t
      in attrs0\<lparr>condL := l, condR := r, condLStatic := sl, condRStatic := sr, condOp := op\<rparr>)"

definition caseNode :: "Pkg \<Rightarrow> bytes \<Rightarrow> Node" where
  "caseNode d t =
     (let (l, r, sl, sr, op) = parseCaseExpr d t
      in Node TypeCase
           (attrs0\<lparr>caseL := l, caseR := r, caseLStatic := sl, caseRStatic := sr, caseOp := op\<rparr>) [])"

definition loopNode :: "Pkg \<Rightarrow> bytes \<Rightarrow> (Type \<times> Attrs) option" where
  "loopNode d t =
     (case FindSubmatch reLoopRange t of
        Some m \<Rightarrow>
          (let a = (if Contains (m 1) [comma]
                    then (let kv = Split (m 1) comma; k = Trim (kv ! 0) space
                          in attrs0\<lparr>loopKey := (if k = uscore then [] else k),
                                    loopVal := Trim (kv ! 1) space\<rparr>)
                    else attrs0\<lparr>loopKey := Trim (m 1) space\<rparr>)
           in Some (TypeLoopRange, a\<lparr>loopSrc := m 2, loopSep := m 3\<rparr>))
      | None \<Rightarrow>
     (case FindSubmatch reLoopCount t of
        Some m \<Rightarrow>
          Some (TypeLoopCount,
                attrs0\<lparr>loopCnt := m 1, loopCntInit := m 2, loopCntStatic := isStatic d (m 2),
                  loopCondOp := parseOp (m 3), loopLim := m 4, loopLimStatic := isStatic d (m 4),
                  loopCntOp := parseOp (m 5), loopSep := m 6\<rparr>)
      | None \<Rightarrow> None))"

text \<open>
  \<^verbatim>\<open>parseTpl\<close> and \<^verbatim>\<open>processCtl\<close>. \<open>parseTpl_loop\<close> is the loop of \<^verbatim>\<open>parseTpl\<close> on the variables
  \<^verbatim>\<open>nodes\<close>, \<^verbatim>\<open>o\<close>, \<^verbatim>\<open>i\<close> and \<^verbatim>\<open>inCtl\<close>; the parser \<open>p\<close> is handed on and returned, since
  \<^verbatim>\<open>processCtl\<close> changes its counters. The results are those of the source: the nodes, the
  offset, (the flag \<^verbatim>\<open>up\<close>) and the error. The two functions call each other, and each
  call uses up one unit of \<open>fuel\<close>; \<open>None\<close> says that the fuel ran out. \<open>Parse\<close> gives
  \<open>3 * length tpl + 3\<close>, which is enough for every template (\<open>Parse_returns\<close>).
\<close>

function parseTpl_loop ::
    "nat \<Rightarrow> Pkg \<Rightarrow> Parser \<Rightarrow> Node list \<Rightarrow> nat \<Rightarrow> nat \<Rightarrow> bool \<Rightarrow> target
      \<Rightarrow> (Parser \<times> Node list \<times> nat \<times> error option) option"
  and processCtl ::
    "nat \<Rightarrow> Pkg \<Rightarrow> Parser \<Rightarrow> Node list \<Rightarrow> bytes \<Rightarrow> nat
      \<Rightarrow> (Parser \<times> Node list \<times> nat \<times> bool \<times> error option) option"
where
  "parseTpl_loop fuel d p nodes o' i inCtl target =
     (if fuel = 0 then None
      else if \<not> (\<not> reached target p \<or> eqZero target) then Some (p, nodes, o', None)
      else
        (case IndexAt (tpl p) ctlOpen i of
           None \<Rightarrow>
             (if inCtl then Some (p, nodes, o', Some ErrUnexpectedEOF)
              else Some (p, addRaw nodes (drop o' (tpl p)), length (tpl p), None))
         | Some i' \<Rightarrow>
             (if inCtl then
                (case IndexAt (tpl p) ctlClose i' of
                   None \<Rightarrow> Some (p, nodes, o', Some ErrUnexpectedEOF)
                 | Some e \<Rightarrow>
                     (case processCtl (fuel - 1) d p nodes
                             (take (e + 2 - o') (drop o' (tpl p))) o' of
                        None \<Rightarrow> None
                      | Some (p', nodes', e', up, err) \<Rightarrow>
                          (if err \<noteq> None then Some (p', nodes', o', err)
                           else if up then Some (p', nodes', e', None)
                           else parseTpl_loop (fuel - 1) d p' nodes' e' e' False target)))
              else parseTpl_loop (fuel - 1) d p
                     (addRaw nodes (take (i' - o') (drop o' (tpl p)))) i' i' True target)))"
| "processCtl fuel d p nodes ctl pos =
     (if fuel = 0 then None
      else
        (let t = Trim ctl ctlTrim in
         if Match reTplPS t \<or> Match reTplP t \<or> Match reTplS t \<or> Match reTpl t then
           Some (p, addNode nodes (tplNode d t), pos + length ctl, False, None)
         else if Match reCtx t then
           Some (p, addNode nodes (ctxNode d t), pos + length ctl, False, None)
         else if Match reCntr t then
           (case cntrNode t of
              Inl e \<Rightarrow> Some (p, nodes, 0, False, Some e)
            | Inr n \<Rightarrow> Some (p, addNode nodes n, pos + length ctl, False, None))
         else if Match reCond t then
           (if Match reCondComplex t then
              (case FindSubmatch reCondHelper t of
                 Some m \<Rightarrow>
                   (case parseTpl_loop (fuel - 1) d (p\<lparr>cc := cc p + 1\<rparr>) []
                           (pos + length ctl) (pos + length ctl) False (newTarget p) of
                      None \<Rightarrow> None
                    | Some (p', subNodes, offset, err) \<Rightarrow>
                        Some (p', addNode nodes
                                (Node TypeCond
                                   ((condAttrs d t)\<lparr>condHlp := m 1,
                                      condHlpArg := extractArgs d (m 2)\<rparr>)
                                   (condChildren (splitNodes subNodes))),
                              offset, False, err))
               | None \<Rightarrow> Some (p, nodes, pos, False, Some (ErrCondComplex t pos)))
            else
              (case parseTpl_loop (fuel - 1) d (p\<lparr>cc := cc p + 1\<rparr>) []
                      (pos + length ctl) (pos + length ctl) False (newTarget p) of
                 None \<Rightarrow> None
               | Some (p', subNodes, offset, err) \<Rightarrow>
                   Some (p', addNode nodes
                           (Node TypeCond (condAttrs d t) (condChildren (splitNodes subNodes))),
                         offset, False, err)))
         else if t = condElse then
           Some (p, addNode nodes (Node TypeDiv attrs0 []), pos + length ctl, False, None)
         else if t = condEnd then
           Some (p\<lparr>cc := cc p - 1\<rparr>, nodes, pos + length ctl, True, None)
         else if Match reLoop t then
           (case loopNode d t of
              None \<Rightarrow> Some (p, nodes, 0, False, Some (ErrLoopParse t pos))
            | Some (ty, a) \<Rightarrow>
                (case parseTpl_loop (fuel - 1) d (p\<lparr>cl := cl p + 1\<rparr>) []
                        (pos + length ctl) (pos + length ctl) False (newTarget p) of
                   None \<Rightarrow> None
                 | Some (p', ch, offset, err) \<Rightarrow>
                     Some (p', addNode nodes (Node ty a ch), offset, False, err)))
         else if t = loopEnd then
           Some (p\<lparr>cl := cl p - 1\<rparr>, nodes, pos + length ctl, True, None)
         else if t = loopBrk then
           Some (p, addNode nodes (Node TypeBreak attrs0 []), pos + length ctl, False, None)
         else if t = loopCnt_kw then
           Some (p, addNode nodes (Node TypeContinue attrs0 []), pos + length ctl, False, None)
         else
           (case FindSubmatch reSwitch t of
              Some m \<Rightarrow>
                (case parseTpl_loop (fuel - 1) d (p\<lparr>cs := cs p + 1\<rparr>) []
                        (pos + length ctl) (pos + length ctl) False (newTarget p) of
                   None \<Rightarrow> None
                 | Some (p', ch, offset, err) \<Rightarrow>
                     Some (p', addNode nodes
                             (Node TypeSwitch (attrs0\<lparr>switchArg := m 1\<rparr>)
                                (rollupSwitchNodes ch)),
                           offset, False, err))
            | None \<Rightarrow>
                (if Match reSwitchCase t then
                   Some (p, addNode nodes (caseNode d t), pos + length ctl, False, None)
                 else if t = swDefault then
                   Some (p, addNode nodes (Node TypeDefault attrs0 []), pos + length ctl,
                         False, None)
                 else if t = swEnd then
                   Some (p\<lparr>cs := cs p - 1\<rparr>, nodes, pos + length ctl, True, None)
                 else if t = ctlExit then
                   Some (p, addNode nodes (Node TypeExit attrs0 []), pos + length ctl,
                         False, None)
                 else Some (p, nodes, 0, False, Some (ErrUnknownStruct t pos))))))"
  by pat_completeness auto
termination
  by (relation "measure (case_sum (\<lambda>(fuel, d, p, nodes, o', i, inCtl, target). fuel)
                                  (\<lambda>(fuel, d, p, nodes, ctl, pos). fuel))")
     auto

declare parseTpl_loop.simps [simp del]
declare processCtl.simps [simp del]

text \<open>\<^verbatim>\<open>parseTpl\<close> starts the loop, and \<^verbatim>\<open>Parse\<close> returns the nodes of the tree and the error.\<close>

definition parseTpl ::
    "nat \<Rightarrow> Pkg \<Rightarrow> Parser \<Rightarrow> Node list \<Rightarrow> nat \<Rightarrow> target
       \<Rightarrow> (Parser \<times> Node list \<times> nat \<times> error option) option" where
  "parseTpl fuel d p nodes offset target = parseTpl_loop fuel d p nodes offset offset False target"

definition Parse :: "Pkg \<Rightarrow> bytes \<Rightarrow> bool \<Rightarrow> (Node list \<times> error option) option" where
  "Parse d src keep =
     (let p = cutFmt (cutComments \<lparr>keepFmt = keep, tpl = src, cc = 0, cl = 0, cs = 0\<rparr>)
      in case parseTpl (3 * length (tpl p) + 3) d p [] 0 (newTarget p) of
           None \<Rightarrow> None
         | Some (p', nodes, offset, err) \<Rightarrow> Some (nodes, err))"


text \<open>
  The template body after \<^verbatim>\<open>cutComments\<close> and \<^verbatim>\<open>cutFmt\<close>, and the property of a body that
  a control tag is opened at some offset and no \<^verbatim>\<open>%}\<close> follows.
\<close>

definition preprocessed :: "bytes \<Rightarrow> bool \<Rightarrow> bytes" where
  "preprocessed src keep =
     tpl (cutFmt (cutComments \<lparr>keepFmt = keep, tpl = src, cc = 0, cl = 0, cs = 0\<rparr>))"

definition unclosed :: "bytes \<Rightarrow> bool" where
  "unclosed s = (\<exists>k. IndexAt s ctlOpen k = Some k \<and> IndexAt s ctlClose k = None)"

text \<open>
  What the claim on conditions says of a tree: a node of type Cond has at most two
  children, a true branch and then a false branch, and so on below every node.
\<close>

fun cond_ok :: "Node \<Rightarrow> bool" where
  "cond_ok (Node t a ch) =
     ((t = TypeCond \<longrightarrow>
         length ch \<le> 2 \<and> map typ_n ch = take (length ch) [TypeCondTrue, TypeCondFalse])
      \<and> (\<forall>c\<in>set ch. cond_ok c))"

text \<open>
  "split the flat child list at the divider": \<open>parts\<close> cuts a list of nodes at every
  divider, so that a list with \<open>k\<close> dividers has \<open>k + 1\<close> parts.
\<close>

fun parts :: "Node list \<Rightarrow> Node list list" where
  "parts [] = [[]]"
| "parts (n # ns) =
     (if typ_n n = TypeDiv then [] # parts ns
      else (n # hd (parts ns)) # tl (parts ns))"

text \<open>
  The four ways in which \<open>processCtl\<close> returns: a node without children is added; the end
  of a structure is found; an error other than \<open>ErrUnexpectedEOF\<close>; or a structure with a
  body, whose nodes \<open>parseTpl_loop\<close> collects and which is added with the error of that
  call.
\<close>

inductive ctlRes ::
    "nat \<Rightarrow> Pkg \<Rightarrow> Parser \<Rightarrow> Node list \<Rightarrow> bytes \<Rightarrow> nat
      \<Rightarrow> (Parser \<times> Node list \<times> nat \<times> bool \<times> error option) \<Rightarrow> bool"
  for fuel d p nodes ctl pos
where
  leaf: "child n = [] \<Longrightarrow>
         ctlRes fuel d p nodes ctl pos (p, addNode nodes n, pos + length ctl, False, None)"
| up: "tpl p' = tpl p \<Longrightarrow>
       ctlRes fuel d p nodes ctl pos (p', nodes, pos + length ctl, True, None)"
| fail: "e \<noteq> ErrUnexpectedEOF \<Longrightarrow>
         ctlRes fuel d p nodes ctl pos (p, nodes, off, False, Some e)"
| nest: "fuel \<noteq> 0 \<Longrightarrow> tpl p0 = tpl p \<Longrightarrow>
         parseTpl_loop (fuel - 1) d p0 [] (pos + length ctl) (pos + length ctl) False
            (newTarget p) = Some (p', sub, off, err) \<Longrightarrow>
         (ty = TypeCond \<and> kids = condChildren (splitNodes sub))
           \<or> (ty \<noteq> TypeCond \<and> kids = sub)
           \<or> (ty \<noteq> TypeCond \<and> kids = rollupSwitchNodes sub) \<Longrightarrow>
         ctlRes fuel d p nodes ctl pos (p', addNode nodes (Node ty a kids), off, False, err)"

text \<open>
  For the examples: numbers are static, and no modifier is registered.
\<close>

definition demo_pkg :: Pkg where
  "demo_pkg = \<lparr>isStatic = (\<lambda>b. b \<noteq> [] \<and> hd b \<in> set ''0123456789''),
               modRegistry = modRegistry0\<rparr>"

lemmas kw_defs = space_def comma_def uscore_def vline_def quotes_def noFmt_def ctlExit_def
  ctlOpen_def ctlClose_def ctlTrim_def ctlTrimAll_def ctxStatic_def condElse_def condEnd_def
  loopEnd_def loopBrk_def loopCnt_kw_def swDefault_def swEnd_def

lemmas parse_defs = Parse_def parseTpl_def cutFmt_def cutComments_def newTarget_def reached_def
  eqZero_def parseTpl_loop.simps processCtl.simps ReplaceAll_empty.simps IndexAt_def Trim_def
  addRaw_def addNode_def condChildren_def condAttrs_def parseCondExpr_def splitNodes_def
  splitNodes_loop.simps demo_pkg_def parseOp_def



section \<open>Properties\<close>

lemma registerAll_other:
  "k \<notin> registeredKeys rs \<Longrightarrow> GetModFn (registerAll rs reg) k = GetModFn reg k"
proof (induction rs arbitrary: reg)
  case Nil
  then show ?case by simp
next
  case (Cons r rs)
  obtain name alias' fn where r: "r = (name, alias', fn)" by (cases r) auto
  from Cons.prems r have k: "k \<notin> registeredKeys rs" "k \<noteq> name" "length alias' > 0 \<longrightarrow> k \<noteq> alias'"
    by (auto split: if_splits)
  have "GetModFn (RegisterModFn name alias' fn reg) k = GetModFn reg k"
    using k by (simp add: GetModFn_def RegisterModFn_def Let_def)
  with Cons.IH [OF k(1)] r show ?case by simp
qed

text \<open>
  C10. After \<open>RegisterModFn name alias' fn\<close> the function is found under the name, and under
  the alias when the alias is not empty; with an empty alias only the name is written; no
  other key changes; and \<open>GetModFn\<close> finds nothing under a key that no registration since
  the empty registry has written.
\<close>

theorem C10_register_get:
  "GetModFn (RegisterModFn name alias' fn reg) name = Some fn
   \<and> (alias' \<noteq> [] \<longrightarrow> GetModFn (RegisterModFn name alias' fn reg) alias' = Some fn)
   \<and> (alias' = [] \<longrightarrow> RegisterModFn name alias' fn reg = reg(name \<mapsto> fn))
   \<and> (k \<noteq> name \<and> k \<noteq> alias' \<longrightarrow> GetModFn (RegisterModFn name alias' fn reg) k = GetModFn reg k)
   \<and> (k \<notin> registeredKeys rs \<longrightarrow> GetModFn (registerAll rs modRegistry0) k = None)"
proof -
  have "GetModFn (registerAll rs modRegistry0) k = None" if "k \<notin> registeredKeys rs"
    using registerAll_other [OF that, of modRegistry0]
    by (simp add: GetModFn_def modRegistry0_def)
  then show ?thesis
    by (auto simp: GetModFn_def RegisterModFn_def Let_def)
qed

theorem C10_register_get_witness:
  "GetModFn (RegisterModFn ''default'' ''def'' (1::nat) modRegistry0) ''default'' = Some 1
   \<and> GetModFn (RegisterModFn ''default'' ''def'' (1::nat) modRegistry0) ''def'' = Some 1
   \<and> RegisterModFn ''round'' [] (2::nat) modRegistry0 = modRegistry0(''round'' \<mapsto> 2)
   \<and> GetModFn (RegisterModFn ''default'' ''def'' (1::nat) modRegistry0) ''ifThen'' = GetModFn modRegistry0 ''ifThen''
   \<and> GetModFn (registerAll [(''default'', ''def'', 1::nat), (''round'', [], 2)] modRegistry0) ''def2'' = None"
  using C10_register_get [of "''default''" "''def''" "1::nat" modRegistry0 "''ifThen''" "[]"]
    C10_register_get [of "''round''" "[]" "2::nat" modRegistry0 "''x''" "[]"]
    C10_register_get [of "''default''" "''def''" "1::nat" modRegistry0 "''def2''"
      "[(''default'', ''def'', 1::nat), (''round'', [], 2)]"]
  by (simp del: One_nat_def) blast

text \<open>
  C1. A condition that is false, with a true branch and a false branch: \<^verbatim>\<open>renderNode\<close>
  renders \<^verbatim>\<open>node.child[0]\<close>, the true branch, where the claim has the false branch
  (\<^verbatim>\<open>{% if a == 1 %}T{% else %}F{% endif %}\<close> with \<^verbatim>\<open>a = 2\<close> writes \<^verbatim>\<open>T\<close>).
\<close>

theorem C1_false_renders_true_branch:
  "renderNode demo_env
     (Node TypeCond (attrs0\<lparr>condL := ''a'', condR := ''1'', condRStatic := True, condOp := OpEq\<rparr>)
        [Node TypeCondTrue attrs0 [RawNode ''T''], Node TypeCondFalse attrs0 [RawNode ''F'']])
     (demo_ctx [(''a'', AnyInt 2)]) []
   = (None, demo_ctx [(''a'', AnyInt 2)], ''T'')"
  by (simp add: demo_defs)


text \<open>
  C8. \<open>Swap\<close> exchanges \<^verbatim>\<open>>\<close> with \<^verbatim>\<open><\<close> and \<^verbatim>\<open>>=\<close> with \<^verbatim>\<open><=\<close> and leaves every other
  operator as it is. For a condition whose left operand is the only static one,
  \<^verbatim>\<open>renderNode\<close> decides the branch by the one call \<^verbatim>\<open>ctx.cmp(condR, condOp.Swap(), condL)\<close>;
  for a condition whose right operand is the only static one, by the call
  \<^verbatim>\<open>ctx.cmp(condL, condOp, condR)\<close>. For the condition written the other way round
  (\<open>reversed\<close>) that is the same call with the same arguments, so both render alike.
\<close>

theorem C8_swap:
  "Swap OpGt = OpLt \<and> Swap OpGtq = OpLtq \<and> Swap OpLt = OpGt \<and> Swap OpLtq = OpGtq
   \<and> Swap OpEq = OpEq \<and> Swap OpNq = OpNq \<and> Swap OpUnk = OpUnk \<and> Swap OpInc = OpInc
   \<and> Swap OpDec = OpDec
   \<and> (condLStatic a \<and> \<not> condRStatic a \<longrightarrow>
        renderNode env (Node TypeCond a ch) ctx w
          = (case ctx_cmp env ctx (condR a) (Swap (condOp a)) (condL a) of
               (ctx1, r) \<Rightarrow>
                 if Err ctx1 \<noteq> None then (Err ctx1, ctx1, w)
                 else if (r \<and> length ch > 0) \<or> (\<not> r \<and> length ch > 1)
                 then renderNode env (ch ! 0) ctx1 w
                 else (None, ctx1, w))
        \<and> renderNode env (Node TypeCond (reversed a) ch) ctx w
          = (case ctx_cmp env ctx (condL (reversed a)) (condOp (reversed a)) (condR (reversed a)) of
               (ctx1, r) \<Rightarrow>
                 if Err ctx1 \<noteq> None then (Err ctx1, ctx1, w)
                 else if (r \<and> length ch > 0) \<or> (\<not> r \<and> length ch > 1)
                 then renderNode env (ch ! 0) ctx1 w
                 else (None, ctx1, w))
        \<and> ctx_cmp env ctx (condL (reversed a)) (condOp (reversed a)) (condR (reversed a))
          = ctx_cmp env ctx (condR a) (Swap (condOp a)) (condL a)
        \<and> renderNode env (Node TypeCond (reversed a) ch) ctx w
          = renderNode env (Node TypeCond a ch) ctx w)"
proof -
  have cond: "renderNode env (Node TypeCond b ch) ctx w
      = (case ctx_cmp env ctx l op r' of
           (ctx1, r) \<Rightarrow>
             if Err ctx1 \<noteq> None then (Err ctx1, ctx1, w)
             else if (r \<and> length ch > 0) \<or> (\<not> r \<and> length ch > 1)
             then renderNode env (ch ! 0) ctx1 w
             else (None, ctx1, w))"
    if "compare_operands env (condL b) (condR b) (condLStatic b) (condRStatic b) (condRSsc b)
          (condOp b) ctx
        = (case ctx_cmp env ctx l op r' of
             (ctx1, r) \<Rightarrow> if Err ctx1 \<noteq> None then (Inl (the (Err ctx1)), ctx1) else (Inr r, ctx1))"
    for b l op r'
  proof -
    obtain ctx1 r where c: "ctx_cmp env ctx l op r' = (ctx1, r)"
      by (cases "ctx_cmp env ctx l op r'") auto
    show ?thesis
    proof (cases ch)
      case Nil
      with that c show ?thesis by (cases "Err ctx1") auto
    next
      case (Cons c0 rest)
      with that c show ?thesis by (cases "Err ctx1"; cases rest) auto
    qed
  qed
  have l: "renderNode env (Node TypeCond a ch) ctx w
      = (case ctx_cmp env ctx (condR a) (Swap (condOp a)) (condL a) of
           (ctx1, r) \<Rightarrow>
             if Err ctx1 \<noteq> None then (Err ctx1, ctx1, w)
             else if (r \<and> length ch > 0) \<or> (\<not> r \<and> length ch > 1)
             then renderNode env (ch ! 0) ctx1 w
             else (None, ctx1, w))"
    if "condLStatic a" "\<not> condRStatic a"
    by (rule cond) (use that in \<open>simp add: compare_operands_def\<close>)
  have r: "renderNode env (Node TypeCond (reversed a) ch) ctx w
      = (case ctx_cmp env ctx (condL (reversed a)) (condOp (reversed a)) (condR (reversed a)) of
           (ctx1, r) \<Rightarrow>
             if Err ctx1 \<noteq> None then (Err ctx1, ctx1, w)
             else if (r \<and> length ch > 0) \<or> (\<not> r \<and> length ch > 1)
             then renderNode env (ch ! 0) ctx1 w
             else (None, ctx1, w))"
    if "condLStatic a" "\<not> condRStatic a"
    by (rule cond) (use that in \<open>simp add: compare_operands_def reversed_def\<close>)
  have e: "ctx_cmp env ctx (condL (reversed a)) (condOp (reversed a)) (condR (reversed a))
      = ctx_cmp env ctx (condR a) (Swap (condOp a)) (condL a)"
    by (simp add: reversed_def)
  have s: "Swap OpGt = OpLt \<and> Swap OpGtq = OpLtq \<and> Swap OpLt = OpGt \<and> Swap OpLtq = OpGtq
   \<and> Swap OpEq = OpEq \<and> Swap OpNq = OpNq \<and> Swap OpUnk = OpUnk \<and> Swap OpInc = OpInc
   \<and> Swap OpDec = OpDec"
    by simp
  from s l r e show ?thesis by (simp del: renderNode.simps Swap.simps)
qed

theorem C8_swap_witness:
  "condLStatic (attrs0\<lparr>condL := ''5'', condR := ''a'', condLStatic := True, condOp := OpLt\<rparr>)
   \<and> \<not> condRStatic (attrs0\<lparr>condL := ''5'', condR := ''a'', condLStatic := True, condOp := OpLt\<rparr>)
   \<and> renderNode noting_env
        (Node TypeCond (attrs0\<lparr>condL := ''5'', condR := ''a'', condLStatic := True, condOp := OpLt\<rparr>)
           [Node TypeCondTrue attrs0 [RawNode ''T'']])
        (demo_ctx [(''a'', AnyInt 7)]) []
      = (None, (demo_ctx [(''a'', AnyInt 7)])\<lparr>modA := [AnyBytes ''a'', AnyStr ''>'', AnyBytes ''5'']\<rparr>, ''T'')
   \<and> renderNode noting_env
        (Node TypeCond (reversed (attrs0\<lparr>condL := ''5'', condR := ''a'', condLStatic := True, condOp := OpLt\<rparr>))
           [Node TypeCondTrue attrs0 [RawNode ''T'']])
        (demo_ctx [(''a'', AnyInt 7)]) []
      = (None, (demo_ctx [(''a'', AnyInt 7)])\<lparr>modA := [AnyBytes ''a'', AnyStr ''>'', AnyBytes ''5'']\<rparr>, ''T'')
   \<and> renderNode noting_env
        (Node TypeCond (attrs0\<lparr>condL := ''5'', condR := ''a'', condLStatic := True, condOp := OpLt\<rparr>)
           [Node TypeCondTrue attrs0 [RawNode ''T'']])
        (demo_ctx [(''a'', AnyInt 3)]) []
      = (None, (demo_ctx [(''a'', AnyInt 3)])\<lparr>modA := [AnyBytes ''a'', AnyStr ''>'', AnyBytes ''5'']\<rparr>, [])"
  using C8_swap [of "attrs0\<lparr>condL := ''5'', condR := ''a'', condLStatic := True, condOp := OpLt\<rparr>"
      noting_env "[Node TypeCondTrue attrs0 [RawNode ''T'']]" "demo_ctx [(''a'', AnyInt 7)]" "[]"]
    C8_swap [of "attrs0\<lparr>condL := ''5'', condR := ''a'', condLStatic := True, condOp := OpLt\<rparr>"
      noting_env "[Node TypeCondTrue attrs0 [RawNode ''T'']]" "demo_ctx [(''a'', AnyInt 3)]" "[]"]
  by (simp add: demo_defs noting_env_def op_name_def reversed_def)

text \<open>
  C6 (as amended). When the operand has been resolved and the modifier chain has run
  without an error, a final value that is nil or the empty string makes \<^verbatim>\<open>renderNode\<close>
  return \<open>ErrEmptyArg\<close> and write nothing. For every other final value, an empty byte slice
  included, the check does not fire: the value is handed to \<^verbatim>\<open>AnyToBytes\<close> and, when that
  succeeds, written between prefix and suffix; \<^verbatim>\<open>renderNode\<close> returns the error of
  \<^verbatim>\<open>AnyToBytes\<close> or else the error of writing the converted bytes, so it returns
  \<open>ErrEmptyArg\<close> only if one of the two does.
\<close>

theorem C6_empty_arg:
  assumes "(if rawStatic a then (ctx, AnyBytes (raw a)) else ctx_getSsc env ctx (raw a) (rawSsc a))
             = (ctx1, raw1)"
    and "Err ctx1 = None"
    and "(if length (mods a) > 0 then apply_mods env (mods a) raw1 ctx1 else (raw1, ctx1, False))
             = (v, ctx2, False)"
    and "Err ctx2 = None"
  shows "(v = AnyNil \<or> v = AnyStr [] \<longrightarrow>
            renderNode env (Node TypeTpl a ch) ctx w = (Some ErrEmptyArg, ctx2, w))
       \<and> (v \<noteq> AnyNil \<and> v \<noteq> AnyStr [] \<longrightarrow>
            renderNode env (Node TypeTpl a ch) ctx w =
              (case AnyToBytes env (bbuf ctx2) v of
                 (bb, Some e) \<Rightarrow> (Some e, ctx2\<lparr>bbuf := bb\<rparr>, w)
               | (bb, None) \<Rightarrow>
                   (let w1 = (if length (prefix a) > 0 then fst (w_Write env w (prefix a)) else w);
                        (w2, werr) = w_Write env w1 bb;
                        w3 = (if length (suffix a) > 0 then fst (w_Write env w2 (suffix a)) else w2)
                    in (werr, ctx2\<lparr>bbuf := bb\<rparr>, w3))))
       \<and> (v \<noteq> AnyNil \<and> v \<noteq> AnyStr []
            \<and> snd (AnyToBytes env (bbuf ctx2) v) \<noteq> Some ErrEmptyArg
            \<and> snd (w_Write env
                      (if length (prefix a) > 0 then fst (w_Write env w (prefix a)) else w)
                      (fst (AnyToBytes env (bbuf ctx2) v))) \<noteq> Some ErrEmptyArg \<longrightarrow>
            fst (renderNode env (Node TypeTpl a ch) ctx w) \<noteq> Some ErrEmptyArg)"
proof -
  obtain bb err where c: "AnyToBytes env (bbuf ctx2) v = (bb, err)"
    by (cases "AnyToBytes env (bbuf ctx2) v") auto
  obtain w2 werr where wr: "w_Write env
      (if length (prefix a) > 0 then fst (w_Write env w (prefix a)) else w) bb = (w2, werr)"
    by (cases "w_Write env (if length (prefix a) > 0 then fst (w_Write env w (prefix a)) else w) bb")
      auto
  have eq: "renderNode env (Node TypeTpl a ch) ctx w =
      (if v = AnyNil \<or> v = AnyStr [] then (Some ErrEmptyArg, ctx2, w)
       else if err = None
       then (werr, ctx2\<lparr>bbuf := bb\<rparr>,
             if length (suffix a) > 0 then fst (w_Write env w2 (suffix a)) else w2)
       else (err, ctx2\<lparr>bbuf := bb\<rparr>, w))"
    unfolding renderNode.simps assms(1) assms(3) Let_def prod.case c
    using assms(2) assms(4) wr by simp
  show ?thesis
    unfolding eq c using wr by (cases err) (auto simp: Let_def)
qed

theorem C6_empty_arg_witness:
  "renderNode demo_env
      (Node TypeTpl (attrs0\<lparr>raw := ''v'', mods := [\<lparr>id_mod = ''trim'', fn_mod = Some trim_mod, arg_mod = []\<rparr>]\<rparr>) [])
      (demo_ctx [(''v'', AnyStr '' '')]) ''out''
     = (Some ErrEmptyArg, (demo_ctx [(''v'', AnyStr '' '')])\<lparr>buf := AnyStr []\<rparr>, ''out'')
   \<and> renderNode demo_env
      (Node TypeTpl (attrs0\<lparr>raw := ''v'', prefix := ''<'', suffix := ''>'',
         mods := [\<lparr>id_mod = ''trim'', fn_mod = Some trim_mod, arg_mod = []\<rparr>]\<rparr>) [])
      (demo_ctx [(''v'', AnyStr '' x'')]) ''out''
     = (None, (demo_ctx [(''v'', AnyStr '' x'')])\<lparr>buf := AnyStr ''x'', bbuf := ''x''\<rparr>, ''out<x>'')
   \<and> renderNode (demo_env\<lparr>w_Write := (\<lambda>w b. (w, Some (ErrExt ''closed'')))\<rparr>)
      (Node TypeTpl (attrs0\<lparr>raw := ''v'', prefix := ''<'', suffix := ''>'',
         mods := [\<lparr>id_mod = ''trim'', fn_mod = Some trim_mod, arg_mod = []\<rparr>]\<rparr>) [])
      (demo_ctx [(''v'', AnyStr '' x'')]) ''out''
     = (Some (ErrExt ''closed''),
        (demo_ctx [(''v'', AnyStr '' x'')])\<lparr>buf := AnyStr ''x'', bbuf := ''x''\<rparr>, ''out'')"
proof -
  let ?m = "[\<lparr>id_mod = ''trim'', fn_mod = Some trim_mod, arg_mod = []\<rparr>]"
  let ?a = "attrs0\<lparr>raw := ''v'', mods := ?m\<rparr>"
  let ?c = "demo_ctx [(''v'', AnyStr '' '')]"
  let ?c1 = "?c\<lparr>buf := AnyStr '' ''\<rparr>"
  let ?c2 = "?c\<lparr>buf := AnyStr []\<rparr>"
  have h1: "(if rawStatic ?a then (?c, AnyBytes (raw ?a)) else ctx_getSsc demo_env ?c (raw ?a) (rawSsc ?a))
             = (?c1, AnyStr '' '')"
    by (simp add: demo_defs)
  have h2: "Err ?c1 = None" by (simp add: demo_defs)
  have h3: "(if length (mods ?a) > 0 then apply_mods demo_env (mods ?a) (AnyStr '' '') ?c1
             else (AnyStr '' '', ?c1, False))
             = (AnyStr [], ?c2, False)"
    by (simp add: demo_defs trim_mod_def)
  have h4: "Err ?c2 = None" by (simp add: demo_defs)
  let ?b = "attrs0\<lparr>raw := ''v'', prefix := ''<'', suffix := ''>'', mods := ?m\<rparr>"
  let ?d = "demo_ctx [(''v'', AnyStr '' x'')]"
  let ?d1 = "?d\<lparr>buf := AnyStr '' x''\<rparr>"
  let ?d2 = "?d\<lparr>buf := AnyStr ''x''\<rparr>"
  let ?env2 = "demo_env\<lparr>w_Write := (\<lambda>w b. (w, Some (ErrExt ''closed'')))\<rparr>"
  have g1: "(if rawStatic ?b then (?d, AnyBytes (raw ?b)) else ctx_getSsc demo_env ?d (raw ?b) (rawSsc ?b))
             = (?d1, AnyStr '' x'')"
    by (simp add: demo_defs)
  have g2: "Err ?d1 = None" by (simp add: demo_defs)
  have g3: "(if length (mods ?b) > 0 then apply_mods demo_env (mods ?b) (AnyStr '' x'') ?d1
             else (AnyStr '' x'', ?d1, False))
             = (AnyStr ''x'', ?d2, False)"
    by (simp add: demo_defs trim_mod_def)
  have g4: "Err ?d2 = None" by (simp add: demo_defs)
  have k1: "(if rawStatic ?b then (?d, AnyBytes (raw ?b)) else ctx_getSsc ?env2 ?d (raw ?b) (rawSsc ?b))
             = (?d1, AnyStr '' x'')"
    by (simp add: demo_defs)
  have k3: "(if length (mods ?b) > 0 then apply_mods ?env2 (mods ?b) (AnyStr '' x'') ?d1
             else (AnyStr '' x'', ?d1, False))
             = (AnyStr ''x'', ?d2, False)"
    by (simp add: demo_defs trim_mod_def)
  show ?thesis
    using C6_empty_arg [OF h1 h2 h3 h4, of "[]" "''out''"]
      C6_empty_arg [OF g1 g2 g3 g4, of "[]" "''out''"]
      C6_empty_arg [OF k1 g2 k3 g4, of "[]" "''out''"]
    by (simp add: demo_defs)
qed

text \<open>
  C6 as stated fails for the empty byte sequence: a print node whose value is an empty byte
  slice returns no error and writes its prefix and suffix.
\<close>

theorem C6_empty_bytes_counterexample:
  "renderNode demo_env (Node TypeTpl (attrs0\<lparr>raw := ''v'', prefix := ''<'', suffix := ''>''\<rparr>) [])
      (demo_ctx [(''v'', AnyBytes [])]) []
     = (None, (demo_ctx [(''v'', AnyBytes [])])\<lparr>buf := AnyBytes []\<rparr>, ''<>'')"
  by (simp add: demo_defs)

lemma RenderTo_loop_not_interrupt:
  "fst (RenderTo_loop env nodes ctx w) \<noteq> Some ErrInterrupt"
  by (induction nodes arbitrary: ctx w) (auto split: prod.splits)

lemma RenderTo_loop_signal:
  "renderChildren env pre ctx w = (None, ctx1, w1) \<Longrightarrow>
   renderNode env n ctx1 w1 = (Some e, ctx2, w2) \<Longrightarrow>
   RenderTo_loop env (pre @ n # rest) ctx w =
     (if e = ErrInterrupt then None else Some e, ctx2, w2)"
proof (induction pre arbitrary: ctx w)
  case Nil
  then show ?case by simp
next
  case (Cons c pre)
  obtain e0 c0 w0 where c: "renderNode env c ctx w = (e0, c0, w0)"
    by (cases "renderNode env c ctx w") auto
  with Cons.prems(1) have e0: "e0 = None" and r: "renderChildren env pre c0 w0 = (None, ctx1, w1)"
    by (auto split: if_splits)
  from Cons.IH [OF r Cons.prems(2)] c e0 show ?case by simp
qed

lemma renderChildren_signal:
  "renderChildren env pre ctx w = (None, ctx1, w1) \<Longrightarrow>
   renderNode env n ctx1 w1 = (Some e, ctx2, w2) \<Longrightarrow>
   renderChildren env (pre @ n # rest) ctx w = (Some e, ctx2, w2)"
proof (induction pre arbitrary: ctx w)
  case Nil
  then show ?case by simp
next
  case (Cons c pre)
  obtain e0 c0 w0 where c: "renderNode env c ctx w = (e0, c0, w0)"
    by (cases "renderNode env c ctx w") auto
  with Cons.prems(1) have e0: "e0 = None" and r: "renderChildren env pre c0 w0 = (None, ctx1, w1)"
    by (auto split: if_splits)
  from Cons.IH [OF r Cons.prems(2)] c e0 show ?case by simp
qed

lemma Iterate_children_signal:
  "Iterate_children env pre ctx w = (LoopCtlNone, ctx1, w1, False) \<Longrightarrow>
   renderNode env n ctx1 w1 = (Some e, ctx2, w2) \<Longrightarrow>
   e = ErrBreakLoop \<or> e = ErrContLoop \<Longrightarrow>
   Iterate_children env (pre @ n # rest) ctx w =
     (if e = ErrBreakLoop then LoopCtlBrk else LoopCtlCnt, ctx2, w2, False)"
proof (induction pre arbitrary: ctx w)
  case Nil
  then show ?case by auto
next
  case (Cons c pre)
  obtain e0 c0 w0 where c: "renderNode env c ctx w = (e0, c0, w0)"
    by (cases "renderNode env c ctx w") auto
  with Cons.prems(1) have e0: "e0 \<noteq> Some ErrNilFn" "e0 \<noteq> Some ErrBreakLoop" "e0 \<noteq> Some ErrContLoop"
    and r: "Iterate_children env pre c0 w0 = (LoopCtlNone, ctx1, w1, False)"
    by (auto split: if_splits)
  from Cons.IH [OF r Cons.prems(2) Cons.prems(3)] c e0 show ?case by simp
qed

text \<open>
  C3 (as amended). \<^verbatim>\<open>RenderTo\<close> never returns \<open>ErrInterrupt\<close>; the signal of an Exit node is
  handed up unchanged by the branch and case nodes around it and by a condition that
  renders its branch, and when a node of the tree returns it, after the nodes before it
  have been rendered, \<^verbatim>\<open>RenderTo\<close> returns success at once. When a child of the body of a range loop returns the signal of a Break or Continue,
  wherever the child stands in the body, \<^verbatim>\<open>Iterate\<close> answers \<open>LoopCtlBrk\<close> or \<open>LoopCtlCnt\<close>
  and renders no further child. A Break or Continue signal that reaches the top level,
  because no loop is around the node, is returned by \<^verbatim>\<open>RenderTo\<close> as the error
  \<open>ErrBreakLoop\<close> or \<open>ErrContLoop\<close>.
\<close>

theorem C3_signals:
  "fst (RenderTo reg env w id' ctx) \<noteq> Some ErrInterrupt
   \<and> renderNode env (Node TypeExit a ch) ctx w = (Some ErrInterrupt, ctx, w)
   \<and> renderNode env (Node TypeBreak a ch) ctx w = (Some ErrBreakLoop, ctx, w)
   \<and> renderNode env (Node TypeContinue a ch) ctx w = (Some ErrContLoop, ctx, w)
   \<and> (renderChildren env pre ctx w = (None, ctx1, w1) \<and> renderNode env n ctx1 w1 = (Some e, ctx2, w2)
        \<and> (t = TypeCondTrue \<or> t = TypeCondFalse \<or> t = TypeCase \<or> t = TypeDefault)
        \<longrightarrow> renderNode env (Node t a (pre @ n # rest)) ctx w = (Some e, ctx2, w2))
   \<and> (compare_operands env (condL a) (condR a) (condLStatic a) (condRStatic a) (condRSsc a)
          (condOp a) ctx = (Inr r, ctx1)
        \<and> ((r \<and> length ch > 0) \<or> (\<not> r \<and> length ch > 1))
        \<longrightarrow> renderNode env (Node TypeCond a ch) ctx w = renderNode env (ch ! 0) ctx1 w)
   \<and> (reg id' = Some (pre @ n # rest) \<and> renderChildren env pre ctx w = (None, ctx1, w1)
        \<and> renderNode env n ctx1 w1 = (Some ErrInterrupt, ctx2, w2)
        \<longrightarrow> RenderTo reg env w id' ctx = (None, ctx2, w2))
   \<and> (Iterate_children env pre ctx w = (LoopCtlNone, ctx1, w1, False)
        \<and> renderNode env n ctx1 w1 = (Some ErrBreakLoop, ctx2, w2)
        \<longrightarrow> Iterate_children env (pre @ n # rest) ctx w = (LoopCtlBrk, ctx2, w2, False))
   \<and> (Iterate_children env pre ctx w = (LoopCtlNone, ctx1, w1, False)
        \<and> renderNode env n ctx1 w1 = (Some ErrContLoop, ctx2, w2)
        \<longrightarrow> Iterate_children env (pre @ n # rest) ctx w = (LoopCtlCnt, ctx2, w2, False))
   \<and> fst (Iterate env a ch cntr ctx w) =
        fst (Iterate_children env ch ctx
               (if cntr > 0 \<and> length (loopSep a) > 0 then fst (w_Write env w (loopSep a)) else w))
   \<and> (reg id' = Some (pre @ n # rest) \<and> renderChildren env pre ctx w = (None, ctx1, w1)
        \<and> renderNode env n ctx1 w1 = (Some e, ctx2, w2) \<and> (e = ErrBreakLoop \<or> e = ErrContLoop)
        \<longrightarrow> RenderTo reg env w id' ctx = (Some e, ctx2, w2))"
proof -
  have 1: "fst (RenderTo reg env w id' ctx) \<noteq> Some ErrInterrupt"
    using RenderTo_loop_not_interrupt by (simp add: RenderTo_def split: option.splits)
  have 2: "renderNode env (Node t a (pre @ n # rest)) ctx w = (Some e, ctx2, w2)"
    if "renderChildren env pre ctx w = (None, ctx1, w1)" "renderNode env n ctx1 w1 = (Some e, ctx2, w2)"
      "t = TypeCondTrue \<or> t = TypeCondFalse \<or> t = TypeCase \<or> t = TypeDefault"
    using renderChildren_signal [OF that(1) that(2), of rest] that(3) by auto
  have cnd: "renderNode env (Node TypeCond a ch) ctx w = renderNode env (ch ! 0) ctx1 w"
    if "compare_operands env (condL a) (condR a) (condLStatic a) (condRStatic a) (condRSsc a)
          (condOp a) ctx = (Inr r, ctx1)"
      "(r \<and> length ch > 0) \<or> (\<not> r \<and> length ch > 1)"
  proof (cases ch)
    case Nil
    with that show ?thesis by simp
  next
    case (Cons c0 more)
    with that show ?thesis by (cases more) auto
  qed
  have 3: "RenderTo reg env w id' ctx = (None, ctx2, w2)"
    if "reg id' = Some (pre @ n # rest)" "renderChildren env pre ctx w = (None, ctx1, w1)"
      "renderNode env n ctx1 w1 = (Some ErrInterrupt, ctx2, w2)"
    using RenderTo_loop_signal [OF that(2) that(3), of rest] that(1) by (simp add: RenderTo_def)
  have 4: "Iterate_children env (pre @ n # rest) ctx w = (LoopCtlBrk, ctx2, w2, False)"
    if "Iterate_children env pre ctx w = (LoopCtlNone, ctx1, w1, False)"
      "renderNode env n ctx1 w1 = (Some ErrBreakLoop, ctx2, w2)"
    using Iterate_children_signal [OF that(1) that(2), of rest] by simp
  have 5: "Iterate_children env (pre @ n # rest) ctx w = (LoopCtlCnt, ctx2, w2, False)"
    if "Iterate_children env pre ctx w = (LoopCtlNone, ctx1, w1, False)"
      "renderNode env n ctx1 w1 = (Some ErrContLoop, ctx2, w2)"
    using Iterate_children_signal [OF that(1) that(2), of rest] by simp
  have 6: "fst (Iterate env a ch cntr ctx w) =
        fst (Iterate_children env ch ctx
               (if cntr > 0 \<and> length (loopSep a) > 0 then fst (w_Write env w (loopSep a)) else w))"
    by (simp add: Let_def split: prod.splits)
  have 7: "RenderTo reg env w id' ctx = (Some e, ctx2, w2)"
    if "reg id' = Some (pre @ n # rest)" "renderChildren env pre ctx w = (None, ctx1, w1)"
      "renderNode env n ctx1 w1 = (Some e, ctx2, w2)" "e = ErrBreakLoop \<or> e = ErrContLoop"
    using RenderTo_loop_signal [OF that(2) that(3), of rest] that(1) that(4)
    by (auto simp: RenderTo_def)
  show ?thesis
    apply (intro conjI impI)
    subgoal by (rule 1)
    subgoal by simp
    subgoal by simp
    subgoal by simp
    subgoal by (rule 2) simp_all
    subgoal by (rule cnd) simp_all
    subgoal by (rule 3) simp_all
    subgoal by (rule 4) simp_all
    subgoal by (rule 5) simp_all
    subgoal by (rule 6)
    subgoal by (rule 7) simp_all
    done
qed

text \<open>
  The template \<^verbatim>\<open>a{% if x == 1 %}b{% exit %}c{% endif %}d\<close> with \<^verbatim>\<open>x = 1\<close> writes \<^verbatim>\<open>ab\<close> and
  succeeds; in the body \<^verbatim>\<open>x{% if x == 1 %}{% break %}{% endif %}y\<close> of a loop the Break of
  the second child makes \<^verbatim>\<open>Iterate\<close> answer \<open>LoopCtlBrk\<close>; and
  \<^verbatim>\<open>a{% if x == 1 %}{% continue %}{% endif %}b\<close>, with no loop, returns \<open>ErrContLoop\<close>.
\<close>

theorem C3_signals_witness:
  "RenderTo [''t'' \<mapsto> [RawNode ''a'', exit_cond, RawNode ''d'']] demo_env [] ''t'' (demo_ctx [(''x'', AnyInt 1)])
     = (None, demo_ctx [(''x'', AnyInt 1)], ''ab'')
   \<and> renderNode demo_env (Node TypeCondTrue attrs0 [RawNode ''b'', Node TypeExit attrs0 [], RawNode ''c''])
        (demo_ctx [(''x'', AnyInt 1)]) ''a''
     = (Some ErrInterrupt, demo_ctx [(''x'', AnyInt 1)], ''ab'')
   \<and> renderNode demo_env exit_cond (demo_ctx [(''x'', AnyInt 1)]) ''a''
     = renderNode demo_env (Node TypeCondTrue attrs0 [RawNode ''b'', Node TypeExit attrs0 [], RawNode ''c''])
         (demo_ctx [(''x'', AnyInt 1)]) ''a''
   \<and> Iterate_children demo_env [RawNode ''x'', signal_cond TypeBreak, RawNode ''y'']
        (demo_ctx [(''x'', AnyInt 1)]) ''w''
     = (LoopCtlBrk, demo_ctx [(''x'', AnyInt 1)], ''wx'', False)
   \<and> Iterate_children demo_env [RawNode ''x'', signal_cond TypeContinue, RawNode ''y'']
        (demo_ctx [(''x'', AnyInt 1)]) ''w''
     = (LoopCtlCnt, demo_ctx [(''x'', AnyInt 1)], ''wx'', False)
   \<and> RenderTo [''t'' \<mapsto> [RawNode ''a'', signal_cond TypeContinue, RawNode ''b'']] demo_env [] ''t''
        (demo_ctx [(''x'', AnyInt 1)])
     = (Some ErrContLoop, demo_ctx [(''x'', AnyInt 1)], ''a'')"
proof -
  let ?c = "demo_ctx [(''x'', AnyInt 1)]"
  let ?reg = "[''t'' \<mapsto> [RawNode ''a'', exit_cond, RawNode ''d'']]"
  let ?reg2 = "[''t'' \<mapsto> [RawNode ''a'', signal_cond TypeContinue, RawNode ''b'']]"
  have reg: "?reg ''t'' = Some ([RawNode ''a''] @ exit_cond # [RawNode ''d''])" by simp
  have reg2: "?reg2 ''t'' = Some ([RawNode ''a''] @ signal_cond TypeContinue # [RawNode ''b''])" by simp
  have pre: "renderChildren demo_env [RawNode ''a''] ?c [] = (None, ?c, ''a'')"
    by (simp add: demo_defs)
  have preb: "renderChildren demo_env [RawNode ''b''] ?c ''a'' = (None, ?c, ''ab'')"
    by (simp add: demo_defs)
  have ex: "renderNode demo_env (Node TypeExit attrs0 []) ?c ''ab'' = (Some ErrInterrupt, ?c, ''ab'')"
    by simp
  have ec: "renderNode demo_env exit_cond ?c ''a'' = (Some ErrInterrupt, ?c, ''ab'')"
    by (simp add: demo_defs exit_cond_def)
  have ipre: "Iterate_children demo_env [RawNode ''x''] ?c ''w'' = (LoopCtlNone, ?c, ''wx'', False)"
    by (simp add: demo_defs)
  have brk: "renderNode demo_env (signal_cond TypeBreak) ?c ''wx'' = (Some ErrBreakLoop, ?c, ''wx'')"
    by (simp add: demo_defs signal_cond_def)
  have cnt: "renderNode demo_env (signal_cond TypeContinue) ?c ''wx'' = (Some ErrContLoop, ?c, ''wx'')"
    by (simp add: demo_defs signal_cond_def)
  have cnt2: "renderNode demo_env (signal_cond TypeContinue) ?c ''a'' = (Some ErrContLoop, ?c, ''a'')"
    by (simp add: demo_defs signal_cond_def)
  note a = C3_signals [where reg = ?reg and env = demo_env and w = "[]" and id' = "''t''"
      and ctx = ?c and pre = "[RawNode ''a'']" and n = exit_cond and rest = "[RawNode ''d'']"
      and ?ctx1.0 = ?c and ?w1.0 = "''a''" and ?ctx2.0 = ?c and ?w2.0 = "''ab''"]
  note b = C3_signals [where env = demo_env and w = "''a''" and ctx = ?c and pre = "[RawNode ''b'']"
      and n = "Node TypeExit attrs0 []" and rest = "[RawNode ''c'']" and t = TypeCondTrue
      and a = attrs0 and e = ErrInterrupt
      and ?ctx1.0 = ?c and ?w1.0 = "''ab''" and ?ctx2.0 = ?c and ?w2.0 = "''ab''"]
  note c = C3_signals [where env = demo_env and w = "''w''" and ctx = ?c and pre = "[RawNode ''x'']"
      and n = "signal_cond TypeBreak" and rest = "[RawNode ''y'']"
      and ?ctx1.0 = ?c and ?w1.0 = "''wx''" and ?ctx2.0 = ?c and ?w2.0 = "''wx''"]
  note d = C3_signals [where env = demo_env and w = "''w''" and ctx = ?c and pre = "[RawNode ''x'']"
      and n = "signal_cond TypeContinue" and rest = "[RawNode ''y'']"
      and ?ctx1.0 = ?c and ?w1.0 = "''wx''" and ?ctx2.0 = ?c and ?w2.0 = "''wx''"]
  note f = C3_signals [where reg = ?reg2 and env = demo_env and w = "[]" and id' = "''t''"
      and ctx = ?c and pre = "[RawNode ''a'']" and n = "signal_cond TypeContinue"
      and rest = "[RawNode ''b'']" and e = ErrContLoop
      and ?ctx1.0 = ?c and ?w1.0 = "''a''" and ?ctx2.0 = ?c and ?w2.0 = "''a''"]
  have 1: "RenderTo ?reg demo_env [] ''t'' ?c = (None, ?c, ''ab'')"
    using a reg pre ec by blast
  have 2: "renderNode demo_env (Node TypeCondTrue attrs0 ([RawNode ''b''] @ Node TypeExit attrs0 [] # [RawNode ''c'']))
        ?c ''a'' = (Some ErrInterrupt, ?c, ''ab'')"
    using b preb ex by blast
  let ?ca = "attrs0\<lparr>condL := ''x'', condR := ''1'', condRStatic := True, condOp := OpEq\<rparr>"
  let ?kids = "[Node TypeCondTrue attrs0 [RawNode ''b'', Node TypeExit attrs0 [], RawNode ''c'']]"
  have cmp: "compare_operands demo_env (condL ?ca) (condR ?ca) (condLStatic ?ca) (condRStatic ?ca)
      (condRSsc ?ca) (condOp ?ca) ?c = (Inr True, ?c)"
    by (simp add: demo_defs)
  note g = C3_signals [where env = demo_env and a = ?ca and ch = ?kids and ctx = ?c and r = True
      and ?ctx1.0 = ?c and w = "''a''"]
  have cnd: "renderNode demo_env (Node TypeCond ?ca ?kids) ?c ''a'' = renderNode demo_env (?kids ! 0) ?c ''a''"
    using g cmp by simp
  have 3: "Iterate_children demo_env ([RawNode ''x''] @ signal_cond TypeBreak # [RawNode ''y'']) ?c ''w''
     = (LoopCtlBrk, ?c, ''wx'', False)"
    using c ipre brk by blast
  have 4: "Iterate_children demo_env ([RawNode ''x''] @ signal_cond TypeContinue # [RawNode ''y'']) ?c ''w''
     = (LoopCtlCnt, ?c, ''wx'', False)"
    using d ipre cnt by blast
  have 5: "RenderTo ?reg2 demo_env [] ''t'' ?c = (Some ErrContLoop, ?c, ''a'')"
    using f reg2 pre cnt2 by blast
  from 1 2 cnd 3 4 5 show ?thesis by (simp add: exit_cond_def)
qed

text \<open>
  C3 as stated fails for a Break outside a loop: the template \<^verbatim>\<open>{% break %}\<close> makes
  \<^verbatim>\<open>RenderTo\<close> return \<open>ErrBreakLoop\<close> to its caller.
\<close>

theorem C3_break_outside_loop_counterexample:
  "RenderTo [''t'' \<mapsto> [Node TypeBreak attrs0 []]] demo_env [] ''t'' (demo_ctx [])
     = (Some ErrBreakLoop, demo_ctx [], [])"
  by (simp add: RenderTo_def)

text \<open>
  C5. A last Case or Default without following siblings: \<^verbatim>\<open>rollupSwitchNodes\<close> appends the
  last group only when it has children, so such a group is missing from the result, where
  the claim has a group of its own for it. A Case without siblings that is not the last one
  is kept.
\<close>

theorem C5_last_group_dropped:
  "rollupSwitchNodes [Node TypeCase (attrs0\<lparr>caseL := ''1''\<rparr>) [], RawNode ''A'', Node TypeDefault attrs0 []]
     = [Node TypeCase (attrs0\<lparr>caseL := ''1''\<rparr>) [RawNode ''A'']]
   \<and> rollupSwitchNodes [Node TypeCase (attrs0\<lparr>caseL := ''1''\<rparr>) []] = []
   \<and> rollupSwitchNodes [Node TypeCase (attrs0\<lparr>caseL := ''1''\<rparr>) [], Node TypeDefault attrs0 [], RawNode ''D'']
     = [Node TypeCase (attrs0\<lparr>caseL := ''1''\<rparr>) [], Node TypeDefault attrs0 [RawNode ''D'']]"
  by (simp add: rollupSwitchNodes_def RawNode_def)


text \<open>
  C7. In a switch with a discriminant, the loop over the cases compares only if \<^verbatim>\<open>ctx.Err\<close>
  is nil after the lookup of the left operand of the Case; otherwise it goes on to the next
  child, without a comparison and without returning the error. With \<^verbatim>\<open>x = 2\<close> and \<^verbatim>\<open>y = 2\<close>
  the switch \<^verbatim>\<open>{% switch x %}{% case y %}A{% default %}D{% endswitch %}\<close> renders \<^verbatim>\<open>A\<close>; in a
  context that holds an error it passes over the Case, although its operand equals the
  discriminant, renders \<^verbatim>\<open>D\<close> and returns nil, where the claim has the first matching Case
  rendered. The loop of a switch without discriminant,
  \<^verbatim>\<open>{% switch %}{% case x == y %}A{% default %}D{% endswitch %}\<close>, returns the error in that
  context. \<^verbatim>\<open>RenderTo\<close> reaches the switch with such a context after a print node whose
  modifier has failed.
\<close>

theorem C7_switch_passes_over_matching_case:
  "renderNode demo_env switch_xy (demo_ctx [(''x'', AnyInt 2), (''y'', AnyBytes ''2'')]) []
     = (None, (demo_ctx [(''x'', AnyInt 2), (''y'', AnyBytes ''2'')])\<lparr>buf := AnyBytes ''2'', bbuf := ''2''\<rparr>,
        ''A'')
   \<and> renderNode demo_env switch_xy
       ((demo_ctx [(''x'', AnyInt 2), (''y'', AnyBytes ''2'')])\<lparr>Err := Some (ErrExt ''lookup'')\<rparr>) []
     = (None,
        (demo_ctx [(''x'', AnyInt 2), (''y'', AnyBytes ''2'')])
          \<lparr>Err := Some (ErrExt ''lookup''), buf := AnyBytes ''2''\<rparr>,
        ''D'')
   \<and> renderNode demo_env switch_noarg_xy
       ((demo_ctx [(''x'', AnyInt 2), (''y'', AnyBytes ''2'')])\<lparr>Err := Some (ErrExt ''lookup'')\<rparr>) []
     = (Some (ErrExt ''lookup''),
        (demo_ctx [(''x'', AnyInt 2), (''y'', AnyBytes ''2'')])
          \<lparr>Err := Some (ErrExt ''lookup''), buf := AnyBytes ''2''\<rparr>,
        [])
   \<and> RenderTo [''t'' \<mapsto> [failing_print, switch_xy]] demo_env [] ''t''
       (demo_ctx [(''x'', AnyInt 2), (''y'', AnyBytes ''2'')])
     = (None,
        (demo_ctx [(''x'', AnyInt 2), (''y'', AnyBytes ''2'')])
          \<lparr>Err := Some ErrModNoArgs, buf := AnyBytes ''2''\<rparr>,
        ''D'')"
  by (simp add: demo_defs switch_xy_def switch_noarg_xy_def failing_print_def RenderTo_def)

lemma renderNode_Case: "typ_n c = TypeCase \<Longrightarrow> renderNode env c ctx w = renderChildren env (child c) ctx w"
  by (cases c) simp

lemma renderNode_Default: "typ_n c = TypeDefault \<Longrightarrow> renderNode env c ctx w = renderChildren env (child c) ctx w"
  by (cases c) simp

lemma switch_arg_first_match:
  "switch_arg env sarg ns ctx w =
     (case first_match (arg_test env sarg) ns ctx of
        (Inl err, ctx1) \<Rightarrow> Inl (Some err, ctx1, w)
      | (Inr (Some c), ctx1) \<Rightarrow>
          (case renderChildren env (child c) ctx1 w of (err, ctx2, w2) \<Rightarrow> Inr (err, True, ctx2, w2))
      | (Inr None, ctx1) \<Rightarrow> Inr (None, False, ctx1, w))"
proof (induction ns arbitrary: ctx)
  case Nil
  show ?case by simp
next
  case (Cons c ns)
  show ?case
  proof (cases "typ_n c = TypeCase")
    case False
    then show ?thesis using Cons.IH by simp
  next
    case True
    show ?thesis
      using True Cons.IH
      by (auto simp: arg_test_def renderNode_Case Let_def split: prod.splits)
  qed
qed

lemma switch_noarg_first_match:
  "switch_noarg env ns ctx w =
     (case first_match (noarg_test env) ns ctx of
        (Inl err, ctx1) \<Rightarrow> Inl (Some err, ctx1, w)
      | (Inr (Some c), ctx1) \<Rightarrow>
          (case renderChildren env (child c) ctx1 w of (err, ctx2, w2) \<Rightarrow> Inr (err, True, ctx2, w2))
      | (Inr None, ctx1) \<Rightarrow> Inr (None, False, ctx1, w))"
proof (induction ns arbitrary: ctx)
  case Nil
  show ?case by simp
next
  case (Cons c ns)
  show ?case
  proof (cases "typ_n c = TypeCase")
    case False
    then show ?thesis using Cons.IH by simp
  next
    case True
    show ?thesis
      using True Cons.IH
      by (auto simp: noarg_test_def renderNode_Case Let_def split: prod.splits sum.splits)
  qed
qed

lemma switch_default_find:
  "switch_default env ns err ctx w =
     (case find (\<lambda>c. typ_n c = TypeDefault) ns of
        Some d \<Rightarrow> renderChildren env (child d) ctx w
      | None \<Rightarrow> (err, ctx, w))"
  by (induction ns) (simp_all add: renderNode_Default)

lemma renderNode_Switch_search:
  "renderNode env (Node TypeSwitch a ch) ctx w = switch_search env a ch ctx w"
  by (auto simp: switch_search_def switch_arg_first_match switch_noarg_first_match switch_default_find
      split: prod.splits sum.splits option.splits)

lemma renderChildren_appends:
  assumes "\<forall>c\<in>set ns. appends env c"
  shows "\<exists>e c' out. \<forall>w. renderChildren env ns ctx w = (e, c', w @ out)"
  using assms
proof (induction ns arbitrary: ctx)
  case Nil
  show ?case by simp
next
  case (Cons n ns)
  from Cons.prems have "appends env n" by simp
  then obtain e c1 o1 where n: "\<And>w. renderNode env n ctx w = (e, c1, w @ o1)"
    unfolding appends_def by blast
  show ?case
  proof (cases "e = None")
    case False
    then have "\<forall>w. renderChildren env (n # ns) ctx w = (e, c1, w @ o1)"
      by (simp add: n)
    then show ?thesis by blast
  next
    case True
    from Cons.IH [of c1] Cons.prems obtain e2 c2 o2
      where r: "\<And>w. renderChildren env ns c1 w = (e2, c2, w @ o2)"
      by auto
    have "\<forall>w. renderChildren env (n # ns) ctx w = (e2, c2, w @ (o1 @ o2))"
      using True by (simp add: n r)
    then show ?thesis by blast
  qed
qed

lemma Iterate_children_appends:
  assumes "\<forall>c\<in>set ns. appends env c"
  shows "\<exists>ctl c' out p. \<forall>w. Iterate_children env ns ctx w = (ctl, c', w @ out, p)"
  using assms
proof (induction ns arbitrary: ctx)
  case Nil
  show ?case by auto
next
  case (Cons n ns)
  from Cons.prems have "appends env n" by simp
  then obtain e c1 o1 where n: "\<And>w. renderNode env n ctx w = (e, c1, w @ o1)"
    unfolding appends_def by blast
  show ?case
  proof (cases "e = Some ErrNilFn \<or> e = Some ErrBreakLoop \<or> e = Some ErrContLoop")
    case True
    then have "\<exists>ctl p. \<forall>w. Iterate_children env (n # ns) ctx w = (ctl, c1, w @ o1, p)"
      by (auto simp: n)
    then show ?thesis by blast
  next
    case False
    from Cons.IH [of c1] Cons.prems obtain ctl c2 o2 p
      where r: "\<And>w. Iterate_children env ns c1 w = (ctl, c2, w @ o2, p)"
      by auto
    have "\<forall>w. Iterate_children env (n # ns) ctx w = (ctl, c2, w @ (o1 @ o2), p)"
      using False by (simp add: n r)
    then show ?thesis by blast
  qed
qed

lemma first_match_Some:
  "first_match test ns ctx = (Inr (Some c), ctx1) \<Longrightarrow> c \<in> set ns \<and> typ_n c = TypeCase"
  by (induction ns arbitrary: ctx) (auto split: if_splits prod.splits sum.splits)

lemma switch_search_appends:
  assumes "\<forall>c\<in>set ch. appends env c"
  shows "\<exists>e c' out. \<forall>w. switch_search env a ch ctx w = (e, c', w @ out)"
proof -
  let ?test = "if switchArg a \<noteq> [] then arg_test env (switchArg a) else noarg_test env"
  obtain res ctx1 where fm: "first_match ?test ch ctx = (res, ctx1)"
    by (cases "first_match ?test ch ctx") auto
  show ?thesis
  proof (cases res)
    case (Inl err)
    then have "\<forall>w. switch_search env a ch ctx w = (Some err, ctx1, w @ [])"
      using fm by (simp add: switch_search_def)
    then show ?thesis by blast
  next
    case (Inr m)
    show ?thesis
    proof (cases m)
      case (Some c)
      with fm Inr have c: "c \<in> set ch" "typ_n c = TypeCase"
        using first_match_Some by blast+
      from c(1) assms have "appends env c" by simp
      then obtain e c2 o2 where r: "\<And>w. renderNode env c ctx1 w = (e, c2, w @ o2)"
        unfolding appends_def by blast
      have "\<forall>w. switch_search env a ch ctx w = (e, c2, w @ o2)"
        using fm Inr Some r c(2) by (simp add: switch_search_def renderNode_Case)
      then show ?thesis by blast
    next
      case None
      show ?thesis
      proof (cases "find (\<lambda>c. typ_n c = TypeDefault) ch")
        case nf: None
        have "\<forall>w. switch_search env a ch ctx w = (None, ctx1, w @ [])"
          using fm Inr None nf by (simp add: switch_search_def)
        then show ?thesis by blast
      next
        case (Some d)
        then have d: "d \<in> set ch" "typ_n d = TypeDefault"
          by (auto simp: find_Some_iff)
        from d(1) assms have "appends env d" by simp
        then obtain e c2 o2 where r: "\<And>w. renderNode env d ctx1 w = (e, c2, w @ o2)"
          unfolding appends_def by blast
        have "\<forall>w. switch_search env a ch ctx w = (e, c2, w @ o2)"
          using fm Inr None Some r d(2) by (simp add: switch_search_def renderNode_Default)
        then show ?thesis by blast
      qed
    qed
  qed
qed

lemma rloop_elems_appends:
  assumes "\<forall>c\<in>set ch. appends env c" and "w_Write env = buffer_Write"
  shows "\<exists>c' out p. \<forall>w. rloop_elems env a ch es cntr ctx w = (c', w @ out, p)"
proof (induction es arbitrary: cntr ctx)
  case Nil
  show ?case by auto
next
  case (Cons el es)
  obtain k v ins where el: "el = (k, v, ins)" by (cases el) auto
  define ctx2 where "ctx2 = ctx_Set env
      (if length (loopKey a) > 0 then ctx_Set env ctx (loopKey a) k ins else ctx) (loopVal a) v ins"
  define sep where "sep = (if cntr > 0 \<and> length (loopSep a) > 0 then loopSep a else [])"
  from Iterate_children_appends [OF assms(1), of ctx2] obtain ctl c3 o3 p
    where it: "\<And>w. Iterate_children env ch ctx2 w = (ctl, c3, w @ o3, p)"
    by blast
  have it': "Iterate env a ch cntr ctx2 w = (ctl, int_wrap (cntr + 1), c3, w @ sep @ o3, p)" for w
    by (simp add: it sep_def assms(2) buffer_Write_def)
  have step: "rloop_elems env a ch (el # es) cntr ctx w =
      (if p then (c3, w @ sep @ o3, True)
       else if ctl = LoopCtlBrk then (c3, w @ sep @ o3, False)
       else rloop_elems env a ch es (int_wrap (cntr + 1)) c3 (w @ sep @ o3))" for w
    unfolding el rloop_elems.simps Let_def ctx2_def [symmetric] it' by simp
  show ?case
  proof (cases "p \<or> ctl = LoopCtlBrk")
    case True
    then have "\<exists>p'. \<forall>w. rloop_elems env a ch (el # es) cntr ctx w = (c3, w @ (sep @ o3), p')"
      unfolding step by auto
    then show ?thesis by blast
  next
    case False
    from Cons.IH [of "int_wrap (cntr + 1)" c3] obtain c4 o4 p4
      where r: "\<And>w. rloop_elems env a ch es (int_wrap (cntr + 1)) c3 w = (c4, w @ o4, p4)"
      by blast
    have "\<forall>w. rloop_elems env a ch (el # es) cntr ctx w = (c4, w @ ((sep @ o3) @ o4), p4)"
      using False unfolding step by (simp add: r)
    then show ?thesis by blast
  qed
qed

lemma renderNode_Tpl_appends:
  assumes "w_Write env = buffer_Write"
  shows "\<exists>e c' out. \<forall>w. renderNode env (Node TypeTpl a ch) ctx w = (e, c', w @ out)"
proof -
  obtain ctx1 raw1 where 1: "(if rawStatic a then (ctx, AnyBytes (raw a))
        else ctx_getSsc env ctx (raw a) (rawSsc a)) = (ctx1, raw1)"
    by (cases "if rawStatic a then (ctx, AnyBytes (raw a)) else ctx_getSsc env ctx (raw a) (rawSsc a)") auto
  obtain raw2 ctx2 panic where 2: "(if length (mods a) > 0 then apply_mods env (mods a) raw1 ctx1
        else (raw1, ctx1, False)) = (raw2, ctx2, panic)"
    by (cases "if length (mods a) > 0 then apply_mods env (mods a) raw1 ctx1 else (raw1, ctx1, False)") auto
  obtain bb err where 3: "AnyToBytes env (bbuf ctx2) raw2 = (bb, err)"
    by (cases "AnyToBytes env (bbuf ctx2) raw2") auto
  have eq: "renderNode env (Node TypeTpl a ch) ctx w =
      (if Err ctx1 \<noteq> None then (Err ctx1, ctx1, w)
       else if panic then (Some ErrNilFn, ctx2, w)
       else if Err ctx2 \<noteq> None then (None, ctx2, w)
       else if raw2 = AnyNil \<or> raw2 = AnyStr [] then (Some ErrEmptyArg, ctx2, w)
       else if err = None then (None, ctx2\<lparr>bbuf := bb\<rparr>, w @ prefix a @ bb @ suffix a)
       else (err, ctx2\<lparr>bbuf := bb\<rparr>, w))" for w
    unfolding renderNode.simps 1 2 Let_def prod.case 3 assms buffer_Write_def by simp
  show ?thesis
    unfolding eq
    apply (cases "Err ctx1 \<noteq> None")
     apply (rule exI[of _ "Err ctx1"], rule exI[of _ ctx1], rule exI[of _ "[]"], simp)
    apply (cases panic)
     apply (rule exI[of _ "Some ErrNilFn"], rule exI[of _ ctx2], rule exI[of _ "[]"], simp)
    apply (cases "Err ctx2 \<noteq> None")
     apply (rule exI[of _ "None"], rule exI[of _ ctx2], rule exI[of _ "[]"], simp)
    apply (cases "raw2 = AnyNil \<or> raw2 = AnyStr []")
     apply (rule exI[of _ "Some ErrEmptyArg"], rule exI[of _ ctx2], rule exI[of _ "[]"], simp)
    apply (cases "err = None")
     apply (rule exI[of _ "None"], rule exI[of _ "ctx2\<lparr>bbuf := bb\<rparr>"], rule exI[of _ "prefix a @ bb @ suffix a"], simp)
    apply (rule exI[of _ "err"], rule exI[of _ "ctx2\<lparr>bbuf := bb\<rparr>"], rule exI[of _ "[]"], auto)
    done
qed

lemma appends_all:
  assumes b: "buffered env"
  shows "appends env n"
proof (induction n)
  case (Node t a ch)
  then have IH: "\<forall>c\<in>set ch. appends env c" by simp
  from b have wr: "w_Write env = buffer_Write" by (simp add: buffered_def)
  show ?case
    unfolding appends_def
  proof
    fix ctx
    show "\<exists>e c' out. \<forall>w. renderNode env (Node t a ch) ctx w = (e, c', w @ out)"
    proof (cases t)
      case TypeRaw
      then show ?thesis by (simp add: wr buffer_Write_def)
    next
      case TypeTpl
      then show ?thesis using renderNode_Tpl_appends [OF wr] by simp
    next
      case TypeCond
      obtain res ctx1 where cmp: "compare_operands env (condL a) (condR a) (condLStatic a)
          (condRStatic a) (condRSsc a) (condOp a) ctx = (res, ctx1)"
        by (cases "compare_operands env (condL a) (condR a) (condLStatic a)
          (condRStatic a) (condRSsc a) (condOp a) ctx") auto
      show ?thesis
      proof (cases res)
        case (Inl err)
        have "\<forall>w. renderNode env (Node t a ch) ctx w = (Some err, ctx1, w @ [])"
          using TypeCond cmp Inl by simp
        then show ?thesis by blast
      next
        case (Inr r)
        show ?thesis
        proof (cases "(r \<and> ch \<noteq> []) \<or> (\<not> r \<and> length ch > 1)")
          case False
          have "\<forall>w. renderNode env (Node t a ch) ctx w = (None, ctx1, w @ [])"
            using TypeCond cmp Inr False by (auto split: list.splits)
          then show ?thesis by blast
        next
          case True
          then obtain c0 rest where ch: "ch = c0 # rest" by (cases ch) auto
          with IH have "appends env c0" by simp
          then obtain e c2 o2 where r: "\<And>w. renderNode env c0 ctx1 w = (e, c2, w @ o2)"
            unfolding appends_def by blast
          have "\<forall>w. renderNode env (Node t a ch) ctx w = (e, c2, w @ o2)"
            using TypeCond cmp Inr True ch r by (auto split: list.splits)
          then show ?thesis by blast
        qed
      qed
    next
      case TypeCondTrue
      then show ?thesis using renderChildren_appends [OF IH] by simp
    next
      case TypeCondFalse
      then show ?thesis using renderChildren_appends [OF IH] by simp
    next
      case TypeLoopRange
      obtain ctx0 elems where l: "ins_Loop env ctx (loopSrc a) = (ctx0, elems)"
        by (cases "ins_Loop env ctx (loopSrc a)") auto
      from rloop_elems_appends [OF IH wr, of a elems 0 ctx0] obtain c1 o1 p
        where r: "\<And>w. rloop_elems env a ch elems 0 ctx0 w = (c1, w @ o1, p)"
        by blast
      have "\<exists>e. \<forall>w. renderNode env (Node t a ch) ctx w = (e, c1, w @ o1)"
        using TypeLoopRange l r by (cases "Err c1"; cases p) (auto simp: Let_def)
      then show ?thesis by blast
    next
      case TypeLoopCount
      from b obtain ctx1 out where l: "\<And>w. ctx_cloop env ctx (Node TypeLoopCount a ch) w = (ctx1, w @ out)"
        unfolding buffered_def by blast
      have "\<exists>e. \<forall>w. renderNode env (Node t a ch) ctx w = (e, ctx1, w @ out)"
        using TypeLoopCount l by (cases "Err ctx1") (auto simp: Let_def)
      then show ?thesis by blast
    next
      case TypeBreak
      then show ?thesis by simp
    next
      case TypeContinue
      then show ?thesis by simp
    next
      case TypeCtx
      have "\<exists>e c'. \<forall>w. renderNode env (Node t a ch) ctx w = (e, c', w @ [])"
        using TypeCtx
        by (cases "ctxSrcStatic a"; cases "GetInspector env (ctxIns a)";
            cases "ctx_getSsc env ctx (ctxSrc a) (ctxSrcSsc a)") (auto simp: Let_def)
      then show ?thesis by blast
    next
      case TypeSwitch
      show ?thesis
        unfolding TypeSwitch renderNode_Switch_search by (rule switch_search_appends [OF IH])
    next
      case TypeCase
      then show ?thesis using renderChildren_appends [OF IH] by simp
    next
      case TypeDefault
      then show ?thesis using renderChildren_appends [OF IH] by simp
    next
      case TypeDiv
      then show ?thesis by simp
    next
      case TypeExit
      then show ?thesis by simp
    next
      case TypeCounter
      then show ?thesis by simp
    next
      case TypeNone
      then show ?thesis by simp
    qed
  qed
qed

lemma body_outs_Nil_iff: "body_outs env a ch es ctx = [] \<longleftrightarrow> es = []"
  by (cases es) (auto simp: Let_def split: prod.splits)

lemma join_Cons: "join sep (x # xs) = x @ (if xs = [] then [] else sep @ join sep xs)"
  by (cases xs) simp_all

lemma int_wrap_id: "- 9223372036854775808 \<le> i \<Longrightarrow> i < 9223372036854775808 \<Longrightarrow> int_wrap i = i"
  by (simp add: int_wrap_def)

lemma Iterate_children_from_empty:
  assumes "buffered env"
  shows "Iterate_children env ch ctx w =
     (case Iterate_children env ch ctx [] of (ctl, ctx1, out, p) \<Rightarrow> (ctl, ctx1, w @ out, p))"
proof -
  have "\<forall>c\<in>set ch. appends env c" by (simp add: appends_all [OF assms])
  from Iterate_children_appends [OF this, of ctx] obtain ctl c1 out p
    where r: "\<And>w. Iterate_children env ch ctx w = (ctl, c1, w @ out, p)"
    by blast
  show ?thesis
    using r [of w] r [of "[]"] by simp
qed

lemma Iterate_sep:
  assumes "buffered env"
  shows "Iterate env a ch cntr ctx w =
     (case Iterate_children env ch ctx [] of
        (ctl, ctx1, out, p) \<Rightarrow>
          (ctl, int_wrap (cntr + 1), ctx1, w @ (if cntr > 0 then loopSep a else []) @ out, p))"
proof -
  from assms have wr: "w_Write env = buffer_Write" by (simp add: buffered_def)
  obtain ctl c1 out p where r: "Iterate_children env ch ctx [] = (ctl, c1, out, p)"
    by (cases "Iterate_children env ch ctx []") auto
  have "Iterate_children env ch ctx w' = (ctl, c1, w' @ out, p)" for w'
    using Iterate_children_from_empty [OF assms, of ch ctx w'] r by simp
  then show ?thesis
    using r by (simp add: Let_def wr buffer_Write_def)
qed

lemma rloop_elems_out:
  assumes "buffered env"
  shows "0 \<le> cntr \<Longrightarrow> cntr + int (length es) < 9223372036854775808 \<Longrightarrow>
    fst (snd (rloop_elems env a ch es cntr ctx w)) =
     w @ (if cntr > 0 \<and> es \<noteq> [] then loopSep a else []) @ join (loopSep a) (body_outs env a ch es ctx)"
proof (induction es arbitrary: cntr ctx w)
  case Nil
  show ?case by simp
next
  case (Cons el es)
  obtain k v ins where el: "el = (k, v, ins)" by (cases el) auto
  define ctx2 where "ctx2 = ctx_Set env
      (if length (loopKey a) > 0 then ctx_Set env ctx (loopKey a) k ins else ctx) (loopVal a) v ins"
  define sep where "sep = (if cntr > 0 then loopSep a else [])"
  from Cons.prems have nw: "int_wrap (cntr + 1) = cntr + 1"
    by (intro int_wrap_id) simp_all
  obtain ctl c3 o3 p where r: "Iterate_children env ch ctx2 [] = (ctl, c3, o3, p)"
    by (cases "Iterate_children env ch ctx2 []") auto
  have it: "Iterate env a ch cntr ctx2 w = (ctl, cntr + 1, c3, w @ sep @ o3, p)"
    unfolding Iterate_sep [OF assms, of a ch cntr ctx2 w] r sep_def nw by simp
  have step: "rloop_elems env a ch (el # es) cntr ctx w =
      (if p then (c3, w @ sep @ o3, True)
       else if ctl = LoopCtlBrk then (c3, w @ sep @ o3, False)
       else rloop_elems env a ch es (cntr + 1) c3 (w @ sep @ o3))"
    unfolding el rloop_elems.simps Let_def ctx2_def [symmetric] it by simp
  have outs: "body_outs env a ch (el # es) ctx =
      o3 # (if p \<or> ctl = LoopCtlBrk then [] else body_outs env a ch es c3)"
    unfolding el body_outs.simps Let_def ctx2_def [symmetric] r by simp
  from Cons.prems have next_ok: "0 \<le> cntr + 1" "cntr + 1 + int (length es) < 9223372036854775808"
    by simp_all
  show ?case
  proof (cases "p \<or> ctl = LoopCtlBrk")
    case True
    then show ?thesis
      unfolding step outs by (auto simp: sep_def)
  next
    case False
    with Cons.prems(1) show ?thesis
      unfolding step outs
      by (simp add: Cons.IH [OF next_ok] join_Cons body_outs_Nil_iff sep_def)
  qed
qed

text \<open>
  C9. For a sink that appends, as the \<^verbatim>\<open>bytes.Buffer\<close> of \<^verbatim>\<open>Render\<close> does: \<^verbatim>\<open>Iterate\<close> writes
  the separator before the body exactly when the counter is greater than 0, and counts the
  iteration whatever the body answers, also when a Continue cuts it short. The counter of a
  range loop starts at 0 and a sequence has fewer than \<open>2^63\<close> elements, so the counter does
  not wrap, and the output of the loop is the outputs of its iterations joined by the
  separator: one separator between two iterations that follow each other, none before the
  first and none after the last; three iterations are joined by two separators.
\<close>

theorem C9_separator:
  assumes "buffered env"
  shows "fst (snd (Iterate env a ch cntr ctx w)) = int_wrap (cntr + 1)
   \<and> (0 \<le> cntr \<and> cntr < 9223372036854775807 \<longrightarrow>
        Iterate env a ch cntr ctx w =
          (case Iterate_children env ch ctx [] of
             (ctl, ctx1, out, p) \<Rightarrow>
               (ctl, cntr + 1, ctx1, w @ (if cntr > 0 then loopSep a else []) @ out, p)))
   \<and> (int (length es) < 9223372036854775808 \<longrightarrow>
        fst (snd (rloop_elems env a ch es 0 ctx w)) = w @ join (loopSep a) (body_outs env a ch es ctx))
   \<and> (int (length (snd (ins_Loop env ctx (loopSrc a)))) < 9223372036854775808 \<longrightarrow>
        snd (snd (renderNode env (Node TypeLoopRange a ch) ctx w)) =
          w @ join (loopSep a)
                (body_outs env a ch (snd (ins_Loop env ctx (loopSrc a))) (fst (ins_Loop env ctx (loopSrc a)))))
   \<and> join sep [o1, o2, o3] = o1 @ sep @ o2 @ sep @ o3"
proof -
  have 0: "fst (snd (Iterate env a ch cntr ctx w)) = int_wrap (cntr + 1)"
    by (simp add: Let_def split: prod.splits)
  have 1: "Iterate env a ch cntr ctx w =
          (case Iterate_children env ch ctx [] of
             (ctl, ctx1, out, p) \<Rightarrow>
               (ctl, cntr + 1, ctx1, w @ (if cntr > 0 then loopSep a else []) @ out, p))"
    if "0 \<le> cntr" "cntr < 9223372036854775807"
  proof -
    from that have "int_wrap (cntr + 1) = cntr + 1" by (intro int_wrap_id) simp_all
    with Iterate_sep [OF assms, of a ch cntr ctx w] show ?thesis by simp
  qed
  have 2: "fst (snd (rloop_elems env a ch es 0 ctx w)) = w @ join (loopSep a) (body_outs env a ch es ctx)"
    if "int (length es) < 9223372036854775808" for es ctx
    using rloop_elems_out [OF assms, of 0 es a ch ctx w] that by simp
  have 3: "snd (snd (renderNode env (Node TypeLoopRange a ch) ctx w)) =
       w @ join (loopSep a)
             (body_outs env a ch (snd (ins_Loop env ctx (loopSrc a))) (fst (ins_Loop env ctx (loopSrc a))))"
    if "int (length (snd (ins_Loop env ctx (loopSrc a)))) < 9223372036854775808"
    using 2 [OF that, of "fst (ins_Loop env ctx (loopSrc a))"]
    by (auto simp: Let_def split: prod.splits)
  show ?thesis
    using 0 1 2 [of es ctx] 3 by simp
qed

theorem C9_separator_witness:
  "buffered demo_env
   \<and> fst (renderNode demo_env
     (Node TypeLoopRange (attrs0\<lparr>loopVal := ''v'', loopSrc := ''xs'', loopSep := '', ''\<rparr>)
        [Node TypeTpl (attrs0\<lparr>raw := ''v''\<rparr>) [], Node TypeContinue attrs0 [], RawNode ''!''])
     (demo_ctx [(''xs'', AnyList [AnyBytes ''a'', AnyBytes ''b'', AnyBytes ''c''])]) []) = None
   \<and> snd (snd (renderNode demo_env
     (Node TypeLoopRange (attrs0\<lparr>loopVal := ''v'', loopSrc := ''xs'', loopSep := '', ''\<rparr>)
        [Node TypeTpl (attrs0\<lparr>raw := ''v''\<rparr>) [], Node TypeContinue attrs0 [], RawNode ''!''])
     (demo_ctx [(''xs'', AnyList [AnyBytes ''a'', AnyBytes ''b'', AnyBytes ''c''])]) [])) = ''a, b, c''
   \<and> body_outs demo_env (attrs0\<lparr>loopVal := ''v'', loopSrc := ''xs'', loopSep := '', ''\<rparr>)
        [Node TypeTpl (attrs0\<lparr>raw := ''v''\<rparr>) [], Node TypeContinue attrs0 [], RawNode ''!'']
        [(AnyNil, AnyBytes ''a'', ''static''), (AnyNil, AnyBytes ''b'', ''static''), (AnyNil, AnyBytes ''c'', ''static'')]
        (demo_ctx [(''xs'', AnyList [AnyBytes ''a'', AnyBytes ''b'', AnyBytes ''c''])])
      = [''a'', ''b'', ''c'']"
proof -
  have b: "buffered demo_env"
    by (simp add: buffered_def demo_env_def)
  show ?thesis
    using b C9_separator [OF b, of "attrs0\<lparr>loopVal := ''v'', loopSrc := ''xs'', loopSep := '', ''\<rparr>"
      "[Node TypeTpl (attrs0\<lparr>raw := ''v''\<rparr>) [], Node TypeContinue attrs0 [], RawNode ''!'']" 0
      "demo_ctx [(''xs'', AnyList [AnyBytes ''a'', AnyBytes ''b'', AnyBytes ''c''])]" "[]" "[]"]
    by (simp add: demo_defs int_wrap_def)
qed


lemma hasPrefix_length: "hasPrefix s sep \<Longrightarrow> length sep \<le> length s"
  by (induction s sep rule: hasPrefix.induct) auto

lemma Index_Some: "Index s sep = Some k \<Longrightarrow> hasPrefix (drop k s) sep \<and> k \<le> length s"
proof (induction s arbitrary: k)
  case Nil
  then show ?case by (auto split: if_splits)
next
  case (Cons x xs)
  show ?case
  proof (cases "hasPrefix (x # xs) sep")
    case True
    with Cons.prems show ?thesis by simp
  next
    case False
    with Cons.prems obtain j where j: "Index xs sep = Some j" "k = j + 1"
      by (auto split: option.splits)
    from Cons.IH [OF j(1)] j(2) show ?thesis by simp
  qed
qed

lemma Index_hasPrefix: "hasPrefix s sep \<Longrightarrow> Index s sep = Some 0"
  by (cases s; cases sep) auto

lemma IndexAt_Some:
  assumes "IndexAt s sep at = Some j"
  shows "at \<le> j \<and> j + length sep \<le> length s \<and> hasPrefix (drop j s) sep"
proof -
  from assms obtain k where k: "at < length s" "Index (drop at s) sep = Some k" "j = k + at"
    by (auto simp: IndexAt_def split: if_splits option.splits)
  from Index_Some [OF k(2)] have p: "hasPrefix (drop (k + at) s) sep" and le: "k \<le> length s - at"
    by simp_all
  from hasPrefix_length [OF p] have "length sep \<le> length s - (k + at)" by simp
  with k le p show ?thesis by auto
qed

lemma IndexAt_self:
  assumes "IndexAt s sep at = Some j" "sep \<noteq> []"
  shows "IndexAt s sep j = Some j"
proof -
  from IndexAt_Some [OF assms(1)] have a: "j + length sep \<le> length s" "hasPrefix (drop j s) sep"
    by simp_all
  from a(1) assms(2) have "j < length s" by (cases sep) auto
  with Index_hasPrefix [OF a(2)] show ?thesis by (simp add: IndexAt_def)
qed

lemma child_tplNode: "child (tplNode d t) = []"
  by (simp add: tplNode_def split: option.splits prod.splits)

lemma child_ctxNode: "child (ctxNode d t) = []"
  by (simp add: ctxNode_def split: option.splits)

lemma child_cntrNode: "cntrNode t = Inr n \<Longrightarrow> child n = []"
  by (auto simp: cntrNode_def split: option.splits sum.splits)

lemma cntrNode_err: "cntrNode t = Inl e \<Longrightarrow> e \<noteq> ErrUnexpectedEOF"
  by (auto simp: cntrNode_def Atoi_def split: option.splits sum.splits if_splits)

lemma child_caseNode: "child (caseNode d t) = []"
  by (simp add: caseNode_def split: prod.splits)

lemma loopNode_typ: "loopNode d t = Some (ty, a) \<Longrightarrow> ty \<noteq> TypeCond"
  by (auto simp: loopNode_def Let_def split: option.splits if_splits)

lemma nestI:
  "parseTpl_loop (fuel - 1) d p0 [] (pos + length ctl) (pos + length ctl) False (newTarget p)
     = Some (p', sub, off, err) \<Longrightarrow>
   fuel \<noteq> 0 \<Longrightarrow> tpl p0 = tpl p \<Longrightarrow>
   (ty = TypeCond \<and> kids = condChildren (splitNodes sub))
     \<or> (ty \<noteq> TypeCond \<and> kids = sub)
     \<or> (ty \<noteq> TypeCond \<and> kids = rollupSwitchNodes sub) \<Longrightarrow>
   ctlRes fuel d p nodes ctl pos (p', addNode nodes (Node ty a kids), off, False, err)"
  by (rule ctlRes.nest)

lemma processCtl_shape:
  assumes "processCtl fuel d p nodes ctl pos = Some r"
  shows "ctlRes fuel d p nodes ctl pos r"
  using assms
  apply (subst (asm) processCtl.simps)
  apply (simp only: Let_def split: if_splits option.splits sum.splits prod.splits)
  apply (simp_all del: One_nat_def)
  apply safe
  apply ((rule ctlRes.leaf, (simp add: child_tplNode child_ctxNode child_caseNode | erule child_cntrNode))
       | (rule ctlRes.up, simp)
       | (rule ctlRes.fail, (simp | erule cntrNode_err))
       | (erule nestI, simp, simp, ((drule loopNode_typ, simp) | simp)))+
  done

lemma processCtl_None:
  assumes "processCtl fuel d p nodes ctl pos = None"
  shows "fuel = 0
    \<or> parseTpl_loop (fuel - 1) d (p\<lparr>cc := cc p + 1\<rparr>) [] (pos + length ctl) (pos + length ctl)
         False (newTarget p) = None
    \<or> parseTpl_loop (fuel - 1) d (p\<lparr>cl := cl p + 1\<rparr>) [] (pos + length ctl) (pos + length ctl)
         False (newTarget p) = None
    \<or> parseTpl_loop (fuel - 1) d (p\<lparr>cs := cs p + 1\<rparr>) [] (pos + length ctl) (pos + length ctl)
         False (newTarget p) = None"
  using assms
  apply (subst (asm) processCtl.simps)
  apply (simp only: Let_def split: if_splits option.splits sum.splits prod.splits)
  apply simp_all
  done

lemma parseTpl_loop_0: "parseTpl_loop 0 d p nodes o' i inCtl target = None"
  by (simp add: parseTpl_loop.simps)

lemma processCtl_0: "processCtl 0 d p nodes ctl pos = None"
  by (simp add: processCtl.simps)

lemma parseTpl_loop_Suc:
  "parseTpl_loop (Suc f) d p nodes o' i inCtl target =
     (if \<not> (\<not> reached target p \<or> eqZero target) then Some (p, nodes, o', None)
      else
        (case IndexAt (tpl p) ctlOpen i of
           None \<Rightarrow>
             (if inCtl then Some (p, nodes, o', Some ErrUnexpectedEOF)
              else Some (p, addRaw nodes (drop o' (tpl p)), length (tpl p), None))
         | Some i' \<Rightarrow>
             (if inCtl then
                (case IndexAt (tpl p) ctlClose i' of
                   None \<Rightarrow> Some (p, nodes, o', Some ErrUnexpectedEOF)
                 | Some e \<Rightarrow>
                     (case processCtl f d p nodes (take (e + 2 - o') (drop o' (tpl p))) o' of
                        None \<Rightarrow> None
                      | Some (p', nodes', e', up, err) \<Rightarrow>
                          (if err \<noteq> None then Some (p', nodes', o', err)
                           else if up then Some (p', nodes', e', None)
                           else parseTpl_loop f d p' nodes' e' e' False target)))
              else parseTpl_loop f d p
                     (addRaw nodes (take (i' - o') (drop o' (tpl p)))) i' i' True target)))"
  by (subst parseTpl_loop.simps) (simp only: diff_Suc_1 Suc_not_Zero if_False)

lemma ctl_bounds:
  assumes "IndexAt s ctlOpen i = Some i'" "IndexAt s ctlClose i' = Some e" "o' \<le> i"
  shows "0 < length (take (e + 2 - o') (drop o' s))"
    and "o' + length (take (e + 2 - o') (drop o' s)) \<le> length s"
    and "o' + length (take (e + 2 - o') (drop o' s)) = e + 2"
proof -
  from IndexAt_Some [OF assms(1)] have a: "i \<le> i'" by simp
  from IndexAt_Some [OF assms(2)] have b: "i' \<le> e" "e + 2 \<le> length s"
    by (simp_all add: ctlClose_def)
  from a b assms(3) show "0 < length (take (e + 2 - o') (drop o' s))"
    and "o' + length (take (e + 2 - o') (drop o' s)) \<le> length s"
    and "o' + length (take (e + 2 - o') (drop o' s)) = e + 2"
    by auto
qed

lemma parse_offsets:
  "(\<forall>d p nodes o' i inCtl target p' nodes' o'' err.
      parseTpl_loop fuel d p nodes o' i inCtl target = Some (p', nodes', o'', err) \<longrightarrow>
      o' \<le> i \<longrightarrow> i \<le> length (tpl p) \<longrightarrow>
      o' \<le> o'' \<and> o'' \<le> length (tpl p) \<and> tpl p' = tpl p)
   \<and> (\<forall>d p nodes ctl pos p' nodes' off up err.
      processCtl fuel d p nodes ctl pos = Some (p', nodes', off, up, err) \<longrightarrow>
      0 < length ctl \<longrightarrow> pos + length ctl \<le> length (tpl p) \<longrightarrow>
      tpl p' = tpl p \<and> (err = None \<longrightarrow> pos < off \<and> off \<le> length (tpl p)))"
proof (induction fuel)
  case 0
  show ?case by (simp add: parseTpl_loop_0 processCtl_0)
next
  case (Suc f)
  note L = Suc.IH [THEN conjunct1, rule_format]
  note C = Suc.IH [THEN conjunct2, rule_format]
  have part2: "tpl p' = tpl p \<and> (err = None \<longrightarrow> pos < off \<and> off \<le> length (tpl p))"
    if r: "processCtl (Suc f) d p nodes ctl pos = Some (p', nodes', off, up, err)"
      and c: "0 < length ctl" "pos + length ctl \<le> length (tpl p)"
    for d p nodes ctl pos p' nodes' off up err
    using processCtl_shape [OF r]
  proof cases
    case (leaf n)
    with c show ?thesis by simp
  next
    case up
    with c show ?thesis by simp
  next
    case (fail e)
    then show ?thesis by simp
  next
    case (nest p0 sub ty a kids)
    from nest have "parseTpl_loop f d p0 [] (pos + length ctl) (pos + length ctl) False
        (newTarget p) = Some (p', sub, off, err)" by simp
    from L [OF this] c nest show ?thesis by (cases ctl) auto
  qed
  have part1: "o' \<le> o'' \<and> o'' \<le> length (tpl p) \<and> tpl p' = tpl p"
    if r: "parseTpl_loop (Suc f) d p nodes o' i inCtl target = Some (p', nodes', o'', err)"
      and c: "o' \<le> i" "i \<le> length (tpl p)"
    for d p nodes o' i inCtl target p' nodes' o'' err
  proof (cases "reached target p \<and> \<not> eqZero target")
    case True
    with r c show ?thesis by (simp add: parseTpl_loop_Suc)
  next
    case nstop: False
    show ?thesis
    proof (cases "IndexAt (tpl p) ctlOpen i")
      case None
      with r c nstop show ?thesis by (auto simp: parseTpl_loop_Suc split: if_splits)
    next
      case (Some i')
      from IndexAt_Some [OF Some] have i': "i \<le> i'" "i' \<le> length (tpl p)" by simp_all
      show ?thesis
      proof (cases inCtl)
        case False
        with r nstop Some have "parseTpl_loop f d p
            (addRaw nodes (take (i' - o') (drop o' (tpl p)))) i' i' True target
            = Some (p', nodes', o'', err)"
          by (simp add: parseTpl_loop_Suc)
        from L [OF this] i' c show ?thesis by simp
      next
        case True
        show ?thesis
        proof (cases "IndexAt (tpl p) ctlClose i'")
          case None
          with r nstop Some True c show ?thesis by (simp add: parseTpl_loop_Suc)
        next
          case e: (Some e)
          note b = ctl_bounds [OF Some e c(1)]
          show ?thesis
          proof (cases "processCtl f d p nodes (take (e + 2 - o') (drop o' (tpl p))) o'")
            case None
            with r nstop Some True e show ?thesis by (simp add: parseTpl_loop_Suc)
          next
            case pc: (Some res)
            obtain p1 nodes1 e1 up1 err1 where res: "res = (p1, nodes1, e1, up1, err1)"
              by (cases res) auto
            from C [OF pc [unfolded res] b(1) b(2)]
            have k: "tpl p1 = tpl p" "err1 = None \<longrightarrow> o' < e1 \<and> e1 \<le> length (tpl p)"
              by simp_all
            show ?thesis
            proof (cases "err1 \<noteq> None \<or> up1")
              case True
              with r nstop Some \<open>inCtl\<close> e pc res k c show ?thesis
                by (auto simp: parseTpl_loop_Suc split: if_splits)
            next
              case False
              with r nstop Some \<open>inCtl\<close> e pc res
              have "parseTpl_loop f d p1 nodes1 e1 e1 False target = Some (p', nodes', o'', err)"
                by (simp add: parseTpl_loop_Suc)
              from L [OF this] k False show ?thesis by simp
            qed
          qed
        qed
      qed
    qed
  qed
  from part1 part2 show ?case by blast
qed

lemmas parse_offsets_loop = parse_offsets [THEN conjunct1, rule_format]
lemmas parse_offsets_ctl = parse_offsets [THEN conjunct2, rule_format]

lemma parse_fuel:
  "(\<forall>d p nodes o' i inCtl target.
      o' \<le> i \<longrightarrow> i \<le> length (tpl p) \<longrightarrow>
      3 * (length (tpl p) - o') + (if inCtl then 1 else 2) \<le> fuel \<longrightarrow>
      parseTpl_loop fuel d p nodes o' i inCtl target \<noteq> None)
   \<and> (\<forall>d p nodes ctl pos.
      0 < length ctl \<longrightarrow> pos + length ctl \<le> length (tpl p) \<longrightarrow>
      3 * (length (tpl p) - pos) \<le> fuel \<longrightarrow>
      processCtl fuel d p nodes ctl pos \<noteq> None)"
proof (induction fuel)
  case 0
  have a: False if "0 < length ctl" "pos + length ctl \<le> n" "3 * (n - pos) \<le> 0"
    for ctl :: bytes and pos n
    using that by (cases ctl) auto
  have b: False if "3 * n + (if c then 1 else 2) \<le> (0::nat)" for n c
    using that by (simp split: if_splits)
  show ?case using a b by blast
next
  case (Suc f)
  note L = Suc.IH [THEN conjunct1, rule_format]
  note C = Suc.IH [THEN conjunct2, rule_format]
  have part2: "processCtl (Suc f) d p nodes ctl pos \<noteq> None"
    if c: "0 < length ctl" "pos + length ctl \<le> length (tpl p)"
      "3 * (length (tpl p) - pos) \<le> Suc f"
    for d p nodes ctl pos
  proof
    assume n: "processCtl (Suc f) d p nodes ctl pos = None"
    have ok: "parseTpl_loop f d p0 [] (pos + length ctl) (pos + length ctl) False t \<noteq> None"
      if "tpl p0 = tpl p" for p0 t
    proof (rule L)
      show "pos + length ctl \<le> pos + length ctl" by simp
      from c that show "pos + length ctl \<le> length (tpl p0)" by simp
      from c that
      show "3 * (length (tpl p0) - (pos + length ctl)) + (if False then 1 else 2) \<le> f"
        by (cases ctl) auto
    qed
    from processCtl_None [OF n] ok [of "p\<lparr>cc := cc p + 1\<rparr>"] ok [of "p\<lparr>cl := cl p + 1\<rparr>"]
      ok [of "p\<lparr>cs := cs p + 1\<rparr>"]
    show False by simp
  qed
  have part1: "parseTpl_loop (Suc f) d p nodes o' i inCtl target \<noteq> None"
    if c: "o' \<le> i" "i \<le> length (tpl p)"
      "3 * (length (tpl p) - o') + (if inCtl then 1 else 2) \<le> Suc f"
    for d p nodes o' i inCtl target
  proof (cases "IndexAt (tpl p) ctlOpen i")
    case None
    then show ?thesis by (simp add: parseTpl_loop_Suc)
  next
    case (Some i')
    from IndexAt_Some [OF Some] have i': "i \<le> i'" "i' \<le> length (tpl p)" by simp_all
    show ?thesis
    proof (cases inCtl)
      case False
      have "parseTpl_loop f d p (addRaw nodes (take (i' - o') (drop o' (tpl p)))) i' i' True
          target \<noteq> None"
      proof (rule L)
        show "i' \<le> i'" by simp
        show "i' \<le> length (tpl p)" by (rule i')
        from c i' False show "3 * (length (tpl p) - i') + (if True then 1 else 2) \<le> f"
          by simp
      qed
      with Some False show ?thesis by (simp add: parseTpl_loop_Suc)
    next
      case True
      show ?thesis
      proof (cases "IndexAt (tpl p) ctlClose i'")
        case None
        with Some True show ?thesis by (simp add: parseTpl_loop_Suc)
      next
        case e: (Some e)
        note b = ctl_bounds [OF Some e c(1)]
        from c True have "3 * (length (tpl p) - o') \<le> f" by simp
        from C [OF b(1) b(2) this, of d nodes]
        obtain res where pc: "processCtl f d p nodes (take (e + 2 - o') (drop o' (tpl p))) o'
            = Some res" by auto
        obtain p1 nodes1 e1 up1 err1 where res: "res = (p1, nodes1, e1, up1, err1)"
          by (cases res) auto
        from parse_offsets_ctl [OF pc [unfolded res] b(1) b(2)]
        have k: "tpl p1 = tpl p" "err1 = None \<longrightarrow> o' < e1 \<and> e1 \<le> length (tpl p)"
          by simp_all
        show ?thesis
        proof (cases "err1 \<noteq> None \<or> up1")
          case True
          with Some \<open>inCtl\<close> e pc res show ?thesis
            by (auto simp: parseTpl_loop_Suc)
        next
          case False
          have "parseTpl_loop f d p1 nodes1 e1 e1 False target \<noteq> None"
          proof (rule L)
            show "e1 \<le> e1" by simp
            from k False show "e1 \<le> length (tpl p1)" by simp
            from c k False \<open>inCtl\<close>
            show "3 * (length (tpl p1) - e1) + (if False then 1 else 2) \<le> f" by auto
          qed
          with Some \<open>inCtl\<close> e pc res False show ?thesis
            by (simp add: parseTpl_loop_Suc)
        qed
      qed
    qed
  qed
  from part1 part2 show ?case by blast
qed

lemma Parse_returns: "\<exists>nodes err. Parse d src keep = Some (nodes, err)"
proof -
  define p where "p = cutFmt (cutComments \<lparr>keepFmt = keep, tpl = src, cc = 0, cl = 0, cs = 0\<rparr>)"
  have "parseTpl_loop (3 * length (tpl p) + 3) d p [] 0 0 False (newTarget p) \<noteq> None"
    by (rule parse_fuel [THEN conjunct1, rule_format]) simp_all
  then show ?thesis
    by (auto simp: Parse_def parseTpl_def Let_def p_def [symmetric] split: option.splits)
qed

lemma cond_ok_leaf: "child n = [] \<Longrightarrow> cond_ok n"
  by (cases n) simp

lemma cond_ok_child: "cond_ok n \<Longrightarrow> c \<in> set (child n) \<Longrightarrow> cond_ok c"
  by (cases n) simp

lemma cond_ok_addNode:
  "\<forall>n\<in>set nodes. cond_ok n \<Longrightarrow> cond_ok n \<Longrightarrow> \<forall>n\<in>set (addNode nodes n). cond_ok n"
  by (simp add: addNode_def)

lemma cond_ok_addRaw: "list_all cond_ok nodes \<Longrightarrow> list_all cond_ok (addRaw nodes r)"
  by (simp add: addRaw_def)

lemma splitNodes_loop_sub:
  "\<forall>part\<in>set split. set part \<subseteq> set nodes \<Longrightarrow>
   \<forall>part\<in>set (fst (splitNodes_loop nodes i o' split)). set part \<subseteq> set nodes"
proof (induction nodes i o' split rule: splitNodes_loop.induct)
  case (1 nodes i o' split)
  have sub: "set (take (i - o') (drop o' nodes)) \<subseteq> set nodes"
    by (meson set_take_subset set_drop_subset subset_trans)
  show ?case
  proof (cases "i < length nodes")
    case False
    with 1 show ?thesis by (subst splitNodes_loop.simps) simp
  next
    case True
    show ?thesis
    proof (cases "typ_n (nodes ! i) = TypeDiv")
      case d: True
      from 1(3) sub have "\<forall>part\<in>set (split @ [take (i - o') (drop o' nodes)]). set part \<subseteq> set nodes"
        by simp
      from 1(1) [OF True d this] True d show ?thesis by (subst splitNodes_loop.simps) simp
    next
      case d: False
      from 1(2) [OF True d 1(3)] True d show ?thesis by (subst splitNodes_loop.simps) simp
    qed
  qed
qed

lemma splitNodes_sub: "part \<in> set (splitNodes nodes) \<Longrightarrow> set part \<subseteq> set nodes"
proof -
  assume a: "part \<in> set (splitNodes nodes)"
  have l: "\<forall>part\<in>set (fst (splitNodes_loop nodes 0 0 [])). set part \<subseteq> set nodes"
    by (rule splitNodes_loop_sub) simp
  have d: "set (drop k nodes) \<subseteq> set nodes" for k by (rule set_drop_subset)
  obtain split o' where eq: "splitNodes_loop nodes 0 0 [] = (split, o')"
    by (cases "splitNodes_loop nodes 0 0 []") auto
  from a l d [of o'] show ?thesis
    by (auto simp: splitNodes_def eq split: if_splits)
qed

lemma cond_ok_condChildren:
  assumes "\<forall>n\<in>set sub. cond_ok n"
  shows "cond_ok (Node TypeCond a (condChildren (splitNodes sub)))"
proof -
  have k: "\<forall>c\<in>set (splitNodes sub ! j). cond_ok c" if "j < length (splitNodes sub)" for j
    using splitNodes_sub [OF nth_mem [OF that]] assms by blast
  show ?thesis
    using k [of 0] k [of 1] by (auto simp: condChildren_def)
qed

lemma rollup_loop_ok:
  "\<forall>n\<in>set ns. cond_ok n \<Longrightarrow> \<forall>n\<in>set r. cond_ok n \<Longrightarrow> cond_ok grp \<Longrightarrow>
   typ_n grp \<noteq> TypeCond \<Longrightarrow>
   (\<forall>n\<in>set (fst (rollup_loop ns r grp)). cond_ok n) \<and> cond_ok (snd (rollup_loop ns r grp))"
proof (induction ns arbitrary: r grp)
  case Nil
  then show ?case by simp
next
  case (Cons node ns)
  from Cons.prems have n: "cond_ok node" and ns: "\<forall>n\<in>set ns. cond_ok n" by simp_all
  have g: "cond_ok (Node (typ_n grp) (attrs grp) (child grp @ [node]))"
    using Cons.prems(3,4) n cond_ok_child [of grp] by auto
  show ?case
  proof (cases "typ_n node \<noteq> TypeCase \<and> typ_n node \<noteq> TypeDefault \<and> typ_n grp = TypeNone")
    case True
    with Cons.IH [OF ns Cons.prems(2) Cons.prems(3) Cons.prems(4)] show ?thesis by simp
  next
    case False
    show ?thesis
    proof (cases "typ_n node = TypeCase \<or> typ_n node = TypeDefault")
      case c: True
      have r': "\<forall>n\<in>set (if typ_n grp \<noteq> TypeNone then r @ [grp] else r). cond_ok n"
        using Cons.prems(2,3) by simp
      from c have t: "typ_n node \<noteq> TypeCond" by auto
      from Cons.IH [OF ns r' n t] False c show ?thesis by auto
    next
      case c: False
      have t: "typ_n (Node (typ_n grp) (attrs grp) (child grp @ [node])) \<noteq> TypeCond"
        using Cons.prems(4) by simp
      from Cons.IH [OF ns Cons.prems(2) g t] False c show ?thesis by simp
    qed
  qed
qed

lemma cond_ok_rollup:
  assumes "\<forall>n\<in>set ns. cond_ok n"
  shows "\<forall>n\<in>set (rollupSwitchNodes ns). cond_ok n"
proof -
  have "(\<forall>n\<in>set (fst (rollup_loop ns [] (Node TypeNone attrs0 []))). cond_ok n)
      \<and> cond_ok (snd (rollup_loop ns [] (Node TypeNone attrs0 [])))"
    by (rule rollup_loop_ok [OF assms]) simp_all
  moreover obtain r grp where eq: "rollup_loop ns [] (Node TypeNone attrs0 []) = (r, grp)"
    by (cases "rollup_loop ns [] (Node TypeNone attrs0 [])") auto
  ultimately show ?thesis
    by (auto simp: rollupSwitchNodes_def eq)
qed

lemma parse_cond_ok:
  "(\<forall>d p nodes o' i inCtl target p' nodes' o'' err.
      parseTpl_loop fuel d p nodes o' i inCtl target = Some (p', nodes', o'', err) \<longrightarrow>
      list_all cond_ok nodes \<longrightarrow> list_all cond_ok nodes' )
   \<and> (\<forall>d p nodes ctl pos p' nodes' off up err.
      processCtl fuel d p nodes ctl pos = Some (p', nodes', off, up, err) \<longrightarrow>
      list_all cond_ok nodes \<longrightarrow> list_all cond_ok nodes' )"
proof (induction fuel)
  case 0
  show ?case by (simp add: parseTpl_loop_0 processCtl_0)
next
  case (Suc f)
  note L = Suc.IH [THEN conjunct1, rule_format]
  note C = Suc.IH [THEN conjunct2, rule_format]
  have part2: "list_all cond_ok nodes'"
    if r: "processCtl (Suc f) d p nodes ctl pos = Some (p', nodes', off, up, err)"
      and c: "list_all cond_ok nodes"
    for d p nodes ctl pos p' nodes' off up err
    using processCtl_shape [OF r]
  proof cases
    case (leaf n)
    with c cond_ok_leaf [of n] show ?thesis by (simp add: addNode_def)
  next
    case up
    with c show ?thesis by simp
  next
    case (fail e)
    with c show ?thesis by simp
  next
    case (nest p0 sub ty a kids)
    from nest have "parseTpl_loop f d p0 [] (pos + length ctl) (pos + length ctl) False
        (newTarget p) = Some (p', sub, off, err)" by simp
    from L [OF this] have s: "\<forall>n\<in>set sub. cond_ok n" by (simp add: list_all_iff)
    from nest cond_ok_condChildren [OF s] cond_ok_rollup [OF s] s
    have "cond_ok (Node ty kids a)" by auto
    with nest c show ?thesis by (simp add: addNode_def)
  qed
  have part1: "list_all cond_ok nodes'"
    if r: "parseTpl_loop (Suc f) d p nodes o' i inCtl target = Some (p', nodes', o'', err)"
      and c: "list_all cond_ok nodes"
    for d p nodes o' i inCtl target p' nodes' o'' err
  proof (cases "reached target p \<and> \<not> eqZero target")
    case True
    with r c show ?thesis by (simp add: parseTpl_loop_Suc)
  next
    case nstop: False
    show ?thesis
    proof (cases "IndexAt (tpl p) ctlOpen i")
      case None
      with r c nstop cond_ok_addRaw [OF c] show ?thesis
        by (auto simp: parseTpl_loop_Suc split: if_splits)
    next
      case (Some i')
      show ?thesis
      proof (cases inCtl)
        case False
        with r nstop Some have "parseTpl_loop f d p
            (addRaw nodes (take (i' - o') (drop o' (tpl p)))) i' i' True target
            = Some (p', nodes', o'', err)"
          by (simp add: parseTpl_loop_Suc)
        from L [OF this cond_ok_addRaw [OF c]] show ?thesis .
      next
        case True
        show ?thesis
        proof (cases "IndexAt (tpl p) ctlClose i'")
          case None
          with r nstop Some True c show ?thesis by (simp add: parseTpl_loop_Suc)
        next
          case e: (Some e)
          show ?thesis
          proof (cases "processCtl f d p nodes (take (e + 2 - o') (drop o' (tpl p))) o'")
            case None
            with r nstop Some True e show ?thesis by (simp add: parseTpl_loop_Suc)
          next
            case pc: (Some res)
            obtain p1 nodes1 e1 up1 err1 where res: "res = (p1, nodes1, e1, up1, err1)"
              by (cases res) auto
            from C [OF pc [unfolded res] c] have k: "list_all cond_ok nodes1" .
            show ?thesis
            proof (cases "err1 \<noteq> None \<or> up1")
              case True
              with r nstop Some \<open>inCtl\<close> e pc res k show ?thesis
                by (auto simp: parseTpl_loop_Suc split: if_splits)
            next
              case False
              with r nstop Some \<open>inCtl\<close> e pc res
              have "parseTpl_loop f d p1 nodes1 e1 e1 False target = Some (p', nodes', o'', err)"
                by (simp add: parseTpl_loop_Suc)
              from L [OF this k] show ?thesis .
            qed
          qed
        qed
      qed
    qed
  qed
  from part1 part2 show ?case by blast
qed

lemma Parse_cond_ok:
  assumes "Parse d src keep = Some (nodes, err)"
  shows "\<forall>n\<in>set nodes. cond_ok n"
proof -
  define p where "p = cutFmt (cutComments \<lparr>keepFmt = keep, tpl = src, cc = 0, cl = 0, cs = 0\<rparr>)"
  from assms obtain p' off where
    "parseTpl_loop (3 * length (tpl p) + 3) d p [] 0 0 False (newTarget p) = Some (p', nodes, off, err)"
    by (auto simp: Parse_def parseTpl_def Let_def p_def [symmetric] split: option.splits)
  from parse_cond_ok [THEN conjunct1, rule_format, OF this] show ?thesis
    by (simp add: list_all_iff)
qed

lemma parse_eof:
  "(\<forall>d p nodes o' i inCtl target p' nodes' o'' .
      parseTpl_loop fuel d p nodes o' i inCtl target = Some (p', nodes', o'', Some ErrUnexpectedEOF) \<longrightarrow>
      o' \<le> i \<longrightarrow> (inCtl \<longrightarrow> IndexAt (tpl p) ctlOpen i = Some i) \<longrightarrow> unclosed (tpl p))
   \<and> (\<forall>d p nodes ctl pos p' nodes' off up.
      processCtl fuel d p nodes ctl pos = Some (p', nodes', off, up, Some ErrUnexpectedEOF) \<longrightarrow>
      unclosed (tpl p))"
proof (induction fuel)
  case 0
  show ?case by (simp add: parseTpl_loop_0 processCtl_0)
next
  case (Suc f)
  note L = Suc.IH [THEN conjunct1, rule_format]
  note C = Suc.IH [THEN conjunct2, rule_format]
  have part2g: "unclosed (tpl p)"
    if r: "processCtl (Suc f) d p nodes ctl pos = Some (p', nodes', off, up, err)"
      and ee: "err = Some ErrUnexpectedEOF"
    for d p nodes ctl pos p' nodes' off up err
    using processCtl_shape [OF r]
  proof cases
    case (leaf n)
    with ee show ?thesis by simp
  next
    case up
    with ee show ?thesis by simp
  next
    case (fail e)
    with ee show ?thesis by simp
  next
    case (nest p0 sub ty a kids)
    from nest ee have "parseTpl_loop f d p0 [] (pos + length ctl) (pos + length ctl) False
        (newTarget p) = Some (p', sub, off, Some ErrUnexpectedEOF)" by simp
    from L [OF this] nest show ?thesis by simp
  qed
  have part2: "unclosed (tpl p)"
    if "processCtl (Suc f) d p nodes ctl pos = Some (p', nodes', off, up, Some ErrUnexpectedEOF)"
    for d p nodes ctl pos p' nodes' off up
    using part2g [OF that] by simp
  have part1: "unclosed (tpl p)"
    if r: "parseTpl_loop (Suc f) d p nodes o' i inCtl target
             = Some (p', nodes', o'', Some ErrUnexpectedEOF)"
      and c: "o' \<le> i" "inCtl \<longrightarrow> IndexAt (tpl p) ctlOpen i = Some i"
    for d p nodes o' i inCtl target p' nodes' o''
  proof (cases "reached target p \<and> \<not> eqZero target")
    case True
    with r show ?thesis by (simp add: parseTpl_loop_Suc)
  next
    case nstop: False
    show ?thesis
    proof (cases "IndexAt (tpl p) ctlOpen i")
      case None
      with r c nstop show ?thesis by (auto simp: parseTpl_loop_Suc split: if_splits)
    next
      case (Some i')
      have self: "IndexAt (tpl p) ctlOpen i' = Some i'"
        by (rule IndexAt_self [OF Some]) (simp add: ctlOpen_def)
      from IndexAt_Some [OF Some] have i': "i \<le> i'" by simp
      show ?thesis
      proof (cases inCtl)
        case False
        with r nstop Some have "parseTpl_loop f d p
            (addRaw nodes (take (i' - o') (drop o' (tpl p)))) i' i' True target
            = Some (p', nodes', o'', Some ErrUnexpectedEOF)"
          by (simp add: parseTpl_loop_Suc)
        from L [OF this] self show ?thesis by simp
      next
        case True
        show ?thesis
        proof (cases "IndexAt (tpl p) ctlClose i'")
          case None
          with self show ?thesis by (auto simp: unclosed_def)
        next
          case e: (Some e)
          note b = ctl_bounds [OF Some e c(1)]
          show ?thesis
          proof (cases "processCtl f d p nodes (take (e + 2 - o') (drop o' (tpl p))) o'")
            case None
            with r nstop Some True e show ?thesis by (simp add: parseTpl_loop_Suc)
          next
            case pc: (Some res)
            obtain p1 nodes1 e1 up1 err1 where res: "res = (p1, nodes1, e1, up1, err1)"
              by (cases res) auto
            from parse_offsets_ctl [OF pc [unfolded res] b(1) b(2)]
            have k: "tpl p1 = tpl p" by simp
            show ?thesis
            proof (cases "err1 \<noteq> None")
              case True
              with r nstop Some \<open>inCtl\<close> e pc res
              have "err1 = Some ErrUnexpectedEOF" by (auto simp: parseTpl_loop_Suc)
              with C [of d p nodes _ o' p1 nodes1 e1 up1] pc res show ?thesis by simp
            next
              case ne: False
              show ?thesis
              proof (cases up1)
                case True
                with r nstop Some \<open>inCtl\<close> e pc res ne show ?thesis
                  by (simp add: parseTpl_loop_Suc)
              next
                case False
                with r nstop Some \<open>inCtl\<close> e pc res ne
                have "parseTpl_loop f d p1 nodes1 e1 e1 False target
                    = Some (p', nodes', o'', Some ErrUnexpectedEOF)"
                  by (simp add: parseTpl_loop_Suc)
                from L [OF this] k show ?thesis by simp
              qed
            qed
          qed
        qed
      qed
    qed
  qed
  from part1 part2 show ?case by blast
qed

lemma Parse_eof_only_unclosed:
  assumes "Parse d src keep = Some (nodes, Some ErrUnexpectedEOF)"
  shows "unclosed (preprocessed src keep)"
proof -
  define p where "p = cutFmt (cutComments \<lparr>keepFmt = keep, tpl = src, cc = 0, cl = 0, cs = 0\<rparr>)"
  from assms obtain p' off where
    "parseTpl_loop (3 * length (tpl p) + 3) d p [] 0 0 False (newTarget p)
       = Some (p', nodes, off, Some ErrUnexpectedEOF)"
    by (auto simp: Parse_def parseTpl_def Let_def p_def [symmetric] split: option.splits)
  from parse_eof [THEN conjunct1, rule_format, OF this] show ?thesis
    by (simp add: preprocessed_def p_def)
qed

lemma parseTpl_loop_first_tag:
  assumes "IndexAt (tpl p) ctlOpen 0 = Some k" "IndexAt (tpl p) ctlClose k = None"
    and "eqZero target"
  shows "parseTpl_loop (Suc (Suc f)) d p nodes 0 0 False target
           = Some (p, addRaw nodes (take k (tpl p)), k, Some ErrUnexpectedEOF)"
proof -
  have self: "IndexAt (tpl p) ctlOpen k = Some k"
    by (rule IndexAt_self [OF assms(1)]) (simp add: ctlOpen_def)
  show ?thesis
    by (simp add: parseTpl_loop_Suc assms self)
qed

lemma Parse_first_tag:
  assumes "IndexAt (preprocessed src keep) ctlOpen 0 = Some k"
    "IndexAt (preprocessed src keep) ctlClose k = None"
  shows "Parse d src keep
           = Some (addRaw [] (take k (preprocessed src keep)), Some ErrUnexpectedEOF)"
proof -
  define p where "p = cutFmt (cutComments \<lparr>keepFmt = keep, tpl = src, cc = 0, cl = 0, cs = 0\<rparr>)"
  have z: "eqZero (newTarget p)"
    by (simp add: eqZero_def newTarget_def p_def cutFmt_def cutComments_def)
  have t: "tpl p = preprocessed src keep" by (simp add: preprocessed_def p_def)
  have f: "3 * length (tpl p) + 3 = Suc (Suc (3 * length (tpl p) + 1))" by simp
  from assms have a: "IndexAt (tpl p) ctlOpen 0 = Some k" "IndexAt (tpl p) ctlClose k = None"
    by (simp_all add: t)
  have "parseTpl_loop (3 * length (tpl p) + 3) d p [] 0 0 False (newTarget p)
      = Some (p, addRaw [] (take k (tpl p)), k, Some ErrUnexpectedEOF)"
    unfolding f by (rule parseTpl_loop_first_tag [OF a z])
  then show ?thesis
    by (simp add: Parse_def Let_def p_def [symmetric] parseTpl_def t [symmetric])
qed

lemma parts_not_Nil: "parts ns \<noteq> []"
  by (cases ns) auto

lemma parts_size: "length (concat (parts ns)) + length (parts ns) = Suc (length ns)"
proof (induction ns)
  case Nil
  show ?case by simp
next
  case (Cons n ns)
  obtain x xs where ps: "parts ns = x # xs"
    using parts_not_Nil [of ns] by (cases "parts ns") auto
  with Cons show ?case by simp
qed

lemma last_parts:
  "length (last (parts ns)) \<le> length ns
   \<and> drop (length ns - length (last (parts ns))) ns = last (parts ns)"
proof (induction ns)
  case Nil
  show ?case by simp
next
  case (Cons n ns)
  obtain x xs where ps: "parts ns = x # xs"
    using parts_not_Nil [of ns] by (cases "parts ns") auto
  show ?case
  proof (cases "typ_n n = TypeDiv \<or> xs \<noteq> []")
    case True
    then have l: "last (parts (n # ns)) = last (parts ns)"
      using ps by auto
    from Cons have le: "length (last (parts ns)) \<le> length ns" by simp
    then have "length (n # ns) - length (last (parts ns)) = Suc (length ns - length (last (parts ns)))"
      by simp
    with Cons le show ?thesis unfolding l by simp
  next
    case False
    then have one: "parts ns = [x]" and nd: "typ_n n \<noteq> TypeDiv" using ps by simp_all
    from parts_size [of ns] one have "length x = length ns" by simp
    moreover from Cons one have "drop (length ns - length x) ns = x" by simp
    ultimately have "x = ns" by simp
    with one nd show ?thesis by simp
  qed
qed

lemma splitNodes_loop_parts:
  "o' \<le> i \<Longrightarrow> i \<le> length nodes \<Longrightarrow>
   splitNodes_loop nodes i o' split =
     (split @ butlast ((take (i - o') (drop o' nodes) @ hd (parts (drop i nodes)))
                        # tl (parts (drop i nodes))),
      length nodes
        - length (last ((take (i - o') (drop o' nodes) @ hd (parts (drop i nodes)))
                        # tl (parts (drop i nodes)))))"
proof (induction nodes i o' split rule: splitNodes_loop.induct)
  case (1 nodes i o' split)
  define cur where "cur = take (i - o') (drop o' nodes)"
  have lc: "length cur = i - o'" using 1(3,4) by (simp add: cur_def)
  show ?case
  proof (cases "i < length nodes")
    case False
    with 1(4) have i: "i = length nodes" by simp
    with 1(3) lc have "length nodes - length cur = o'" by simp
    then show ?thesis
      unfolding cur_def [symmetric] using i
      by (subst splitNodes_loop.simps) simp
  next
    case True
    then have dr: "drop i nodes = nodes ! i # drop (Suc i) nodes"
      by (simp add: Cons_nth_drop_Suc)
    obtain x xs where ps: "parts (drop (Suc i) nodes) = x # xs"
      using parts_not_Nil [of "drop (Suc i) nodes"] by (cases "parts (drop (Suc i) nodes)") auto
    show ?thesis
    proof (cases "typ_n (nodes ! i) = TypeDiv")
      case d: True
      have ih: "splitNodes_loop nodes (i + 1) (i + 1) (split @ [cur]) =
          ((split @ [cur]) @ butlast ((take (i + 1 - (i + 1)) (drop (i + 1) nodes)
                @ hd (parts (drop (i + 1) nodes))) # tl (parts (drop (i + 1) nodes))),
           length nodes - length (last ((take (i + 1 - (i + 1)) (drop (i + 1) nodes)
                @ hd (parts (drop (i + 1) nodes))) # tl (parts (drop (i + 1) nodes)))))"
        unfolding cur_def using True by (intro 1(1) [OF True d]) simp_all
      show ?thesis
        unfolding cur_def [symmetric]
        apply (subst splitNodes_loop.simps)
        using True d ih ps
        apply (simp add: dr cur_def [symmetric])
        done
    next
      case d: False
      have cur': "take (Suc i - o') (drop o' nodes) = cur @ [nodes ! i]"
      proof -
        from 1(3) have s: "Suc i - o' = Suc (i - o')" by simp
        from True 1(3) have "i - o' < length (drop o' nodes)" by simp
        then have "take (Suc (i - o')) (drop o' nodes)
            = take (i - o') (drop o' nodes) @ [drop o' nodes ! (i - o')]"
          by (rule take_Suc_conv_app_nth)
        moreover from True 1(3) have "drop o' nodes ! (i - o') = nodes ! i" by simp
        ultimately show ?thesis unfolding s cur_def by simp
      qed
      have ih: "splitNodes_loop nodes (i + 1) o' split =
          (split @ butlast ((take (i + 1 - o') (drop o' nodes)
                @ hd (parts (drop (i + 1) nodes))) # tl (parts (drop (i + 1) nodes))),
           length nodes - length (last ((take (i + 1 - o') (drop o' nodes)
                @ hd (parts (drop (i + 1) nodes))) # tl (parts (drop (i + 1) nodes)))))"
        using True 1(3) by (intro 1(2) [OF True d]) simp_all
      show ?thesis
        unfolding cur_def [symmetric]
        apply (subst splitNodes_loop.simps)
        using True d ih ps lc
        apply (simp add: dr cur' cur_def [symmetric])
        done
    qed
  qed
qed

lemma splitNodes_parts:
  "splitNodes nodes =
     (if nodes = [] then []
      else if last (parts nodes) = [] then butlast (parts nodes) else parts nodes)"
proof (cases "nodes = []")
  case True
  then show ?thesis by (simp add: splitNodes_def)
next
  case False
  obtain x xs where ps: "parts nodes = x # xs"
    using parts_not_Nil [of nodes] by (cases "parts nodes") auto
  have lp: "splitNodes_loop nodes 0 0 [] =
      (butlast (parts nodes), length nodes - length (last (parts nodes)))"
    using splitNodes_loop_parts [of 0 0 nodes "[]"] ps by simp
  from last_parts [of nodes]
  have le: "length (last (parts nodes)) \<le> length nodes"
    and dr: "drop (length nodes - length (last (parts nodes))) nodes = last (parts nodes)"
    by simp_all
  have bl: "butlast (parts nodes) @ [last (parts nodes)] = parts nodes"
    using parts_not_Nil [of nodes] by simp
  show ?thesis
  proof (cases "last (parts nodes) = []")
    case True
    with False lp show ?thesis by (simp add: splitNodes_def)
  next
    case ne: False
    then have "length nodes - length (last (parts nodes)) < length nodes"
      using le False by (cases "last (parts nodes)") auto
    with False lp dr bl ne show ?thesis by (simp add: splitNodes_def)
  qed
qed

lemma parts_divfree: "\<forall>n\<in>set A. typ_n n \<noteq> TypeDiv \<Longrightarrow> parts A = [A]"
  by (induction A) auto

lemma parts_prefix:
  "\<forall>n\<in>set A. typ_n n \<noteq> TypeDiv \<Longrightarrow> typ_n dv = TypeDiv \<Longrightarrow> parts (A @ dv # R) = A # parts R"
  by (induction A) auto

text \<open>
  C2 (as amended). \<^verbatim>\<open>Parse\<close> returns for every source. When the first \<^verbatim>\<open>{%\<close> of the body has
  no \<^verbatim>\<open>%}\<close> after it, \<^verbatim>\<open>Parse\<close> returns \<open>ErrUnexpectedEOF\<close>, with the text before the tag as
  the only node; and whenever \<^verbatim>\<open>Parse\<close> returns \<open>ErrUnexpectedEOF\<close>, the body has a \<^verbatim>\<open>{%\<close> with
  no \<^verbatim>\<open>%}\<close> after it.
\<close>

theorem C2_unexpected_eof:
  "(IndexAt (preprocessed src keep) ctlOpen 0 = Some k
      \<and> IndexAt (preprocessed src keep) ctlClose k = None
      \<longrightarrow> Parse d src keep
            = Some (addRaw [] (take k (preprocessed src keep)), Some ErrUnexpectedEOF))
   \<and> (Parse d src keep = Some (nodes, Some ErrUnexpectedEOF) \<longrightarrow> unclosed (preprocessed src keep))
   \<and> (\<exists>nodes err. Parse d src keep = Some (nodes, err))"
  using Parse_first_tag [of src keep k d] Parse_eof_only_unclosed [of d src keep nodes]
    Parse_returns [of d src keep]
  by blast

theorem C2_unexpected_eof_witness:
  "IndexAt (preprocessed ''x{% if a'' False) ctlOpen 0 = Some 1
   \<and> IndexAt (preprocessed ''x{% if a'' False) ctlClose 1 = None
   \<and> Parse demo_pkg ''x{% if a'' False = Some ([RawNode ''x''], Some ErrUnexpectedEOF)
   \<and> unclosed (preprocessed ''x{% if a'' False)"
proof -
  have p: "preprocessed ''x{% if a'' False = ''x{% if a''"
    by (simp add: preprocessed_def cutFmt_def cutComments_def ReplaceAll_empty.simps Trim_def
        noFmt_def re_defs)
  have a: "IndexAt (preprocessed ''x{% if a'' False) ctlOpen 0 = Some 1"
    unfolding p by (simp add: IndexAt_def ctlOpen_def)
  have b: "IndexAt (preprocessed ''x{% if a'' False) ctlClose 1 = None"
    unfolding p by (simp add: IndexAt_def ctlClose_def)
  have r: "Parse demo_pkg ''x{% if a'' False = Some ([RawNode ''x''], Some ErrUnexpectedEOF)"
    using C2_unexpected_eof [of "''x{% if a''" False 1 demo_pkg] a b
    by (simp add: p addRaw_def RawNode_def)
  from C2_unexpected_eof [of "''x{% if a''" False 1 demo_pkg "[RawNode ''x'']"] r
  have u: "unclosed (preprocessed ''x{% if a'' False)" by blast
  from a b r u show ?thesis by blast
qed

text \<open>
  C2 as stated fails for a condition without its end: \<^verbatim>\<open>{% if a %}text\<close> is parsed without
  an error, into a condition whose true branch holds the text.
\<close>

theorem C2_endif_missing_counterexample:
  "Parse demo_pkg ''{% if a %}text'' False =
   Some ([Node TypeCond attrs0 [Node TypeCondTrue attrs0 [RawNode ''text'']]], None)"
  by (simp add: parse_defs kw_defs re_defs Let_def RawNode_def attrs0_def)

lemma condChildren_split:
  assumes A: "\<forall>n\<in>set A. typ_n n \<noteq> TypeDiv" and B: "\<forall>n\<in>set B. typ_n n \<noteq> TypeDiv"
    and dv: "typ_n dv = TypeDiv" "typ_n dv2 = TypeDiv"
  shows "A \<noteq> [] \<Longrightarrow> condChildren (splitNodes A) = [Node TypeCondTrue attrs0 A]"
    and "B \<noteq> [] \<Longrightarrow> condChildren (splitNodes (A @ dv # B))
           = [Node TypeCondTrue attrs0 A, Node TypeCondFalse attrs0 B]"
    and "condChildren (splitNodes (A @ dv # B @ dv2 # R))
           = [Node TypeCondTrue attrs0 A, Node TypeCondFalse attrs0 B]"
proof -
  show "condChildren (splitNodes A) = [Node TypeCondTrue attrs0 A]" if "A \<noteq> []"
    using that by (simp add: splitNodes_parts parts_divfree [OF A] condChildren_def)
  have pb: "parts (A @ dv # B) = [A, B]"
    by (simp add: parts_prefix [OF A dv(1)] parts_divfree [OF B])
  show "condChildren (splitNodes (A @ dv # B)) = [Node TypeCondTrue attrs0 A, Node TypeCondFalse attrs0 B]"
    if "B \<noteq> []"
    using that by (simp add: splitNodes_parts pb condChildren_def)
  obtain x xs where ps: "parts R = x # xs"
    using parts_not_Nil [of R] by (cases "parts R") auto
  have pr: "parts (A @ dv # B @ dv2 # R) = A # B # x # xs"
    by (simp add: parts_prefix [OF A dv(1)] parts_prefix [OF B dv(2)] ps)
  show "condChildren (splitNodes (A @ dv # B @ dv2 # R))
      = [Node TypeCondTrue attrs0 A, Node TypeCondFalse attrs0 B]"
    by (simp add: splitNodes_parts pr condChildren_def)
qed

text \<open>
  C4 (as amended). In every tree that \<^verbatim>\<open>Parse\<close> returns (and it returns for every source),
  a Cond node has at most two children, a true branch and then a false branch. They are
  made from the parts into which \<^verbatim>\<open>splitNodes\<close> cuts the body at its dividers: no child for
  an empty body, the true branch alone for a body without divider, the nodes before the
  divider and the nodes after it for a body with one divider, and for a body with more
  dividers the nodes before the first and the nodes between the first and the second; what
  follows the second divider is in no child.
\<close>

theorem C4_cond_children:
  "(Parse d src keep = Some (nodes, err) \<longrightarrow> (\<forall>n\<in>set nodes. cond_ok n))
   \<and> (\<exists>nodes err. Parse d src keep = Some (nodes, err))
   \<and> condChildren (splitNodes []) = []
   \<and> ((\<forall>n\<in>set A. typ_n n \<noteq> TypeDiv) \<and> A \<noteq> []
        \<longrightarrow> condChildren (splitNodes A) = [Node TypeCondTrue attrs0 A])
   \<and> ((\<forall>n\<in>set A. typ_n n \<noteq> TypeDiv) \<and> (\<forall>n\<in>set B. typ_n n \<noteq> TypeDiv) \<and> B \<noteq> []
        \<and> typ_n dv = TypeDiv
        \<longrightarrow> condChildren (splitNodes (A @ dv # B))
            = [Node TypeCondTrue attrs0 A, Node TypeCondFalse attrs0 B])
   \<and> ((\<forall>n\<in>set A. typ_n n \<noteq> TypeDiv) \<and> (\<forall>n\<in>set B. typ_n n \<noteq> TypeDiv)
        \<and> typ_n dv = TypeDiv \<and> typ_n dv2 = TypeDiv
        \<longrightarrow> condChildren (splitNodes (A @ dv # B @ dv2 # R))
            = [Node TypeCondTrue attrs0 A, Node TypeCondFalse attrs0 B])"
proof -
  have 1: "\<forall>n\<in>set nodes. cond_ok n" if "Parse d src keep = Some (nodes, err)"
    using that by (rule Parse_cond_ok)
  have 3: "condChildren (splitNodes []) = []"
    by (simp add: splitNodes_def condChildren_def)
  show ?thesis
    apply (intro conjI impI)
    subgoal by (rule 1)
    subgoal by (rule Parse_returns)
    subgoal by (rule 3)
    subgoal by (rule condChildren_split(1) [where B = "[]" and dv = "Node TypeDiv attrs0 []"
          and ?dv2.0 = "Node TypeDiv attrs0 []"]) simp_all
    subgoal by (rule condChildren_split(2) [where ?dv2.0 = dv]) simp_all
    subgoal by (rule condChildren_split(3)) simp_all
    done
qed

theorem C4_cond_children_witness:
  "Parse demo_pkg ''{% if a == 1 %}A{% else %}B{% endif %}'' False =
     Some ([Node TypeCond (attrs0\<lparr>condL := ''a'', condR := ''1'', condRStatic := True, condOp := OpEq\<rparr>)
              [Node TypeCondTrue attrs0 [RawNode ''A''], Node TypeCondFalse attrs0 [RawNode ''B'']]], None)
   \<and> cond_ok (Node TypeCond (attrs0\<lparr>condL := ''a'', condR := ''1'', condRStatic := True, condOp := OpEq\<rparr>)
              [Node TypeCondTrue attrs0 [RawNode ''A''], Node TypeCondFalse attrs0 [RawNode ''B'']])
   \<and> condChildren (splitNodes [RawNode ''A''])
       = [Node TypeCondTrue attrs0 [RawNode ''A'']]
   \<and> condChildren (splitNodes ([RawNode ''A''] @ Node TypeDiv attrs0 [] # [RawNode ''B'']))
       = [Node TypeCondTrue attrs0 [RawNode ''A''], Node TypeCondFalse attrs0 [RawNode ''B'']]
   \<and> condChildren (splitNodes ([RawNode ''A''] @ Node TypeDiv attrs0 [] # [RawNode ''B'']
         @ Node TypeDiv attrs0 [] # [RawNode ''C'']))
       = [Node TypeCondTrue attrs0 [RawNode ''A''], Node TypeCondFalse attrs0 [RawNode ''B'']]"
proof -
  let ?t = "[Node TypeCond (attrs0\<lparr>condL := ''a'', condR := ''1'', condRStatic := True, condOp := OpEq\<rparr>)
              [Node TypeCondTrue attrs0 [RawNode ''A''], Node TypeCondFalse attrs0 [RawNode ''B'']]]"
  have p: "Parse demo_pkg ''{% if a == 1 %}A{% else %}B{% endif %}'' False = Some (?t, None)"
    by (simp add: parse_defs kw_defs re_defs Let_def RawNode_def attrs0_def)
  note t = C4_cond_children [of demo_pkg "''{% if a == 1 %}A{% else %}B{% endif %}''" False ?t None
      "[RawNode ''A'']" "[RawNode ''B'']" "Node TypeDiv attrs0 []" "Node TypeDiv attrs0 []"
      "[RawNode ''C'']"]
  have d: "\<forall>n\<in>set [RawNode ''A'']. typ_n n \<noteq> TypeDiv" "\<forall>n\<in>set [RawNode ''B'']. typ_n n \<noteq> TypeDiv"
    "typ_n (Node TypeDiv attrs0 []) = TypeDiv"
    by (simp_all add: RawNode_def)
  from t p have 1: "\<forall>n\<in>set ?t. cond_ok n" by blast
  from t d have 2: "condChildren (splitNodes [RawNode ''A'']) = [Node TypeCondTrue attrs0 [RawNode ''A'']]"
    by blast
  from t d have 3: "condChildren (splitNodes ([RawNode ''A''] @ Node TypeDiv attrs0 [] # [RawNode ''B'']))
       = [Node TypeCondTrue attrs0 [RawNode ''A''], Node TypeCondFalse attrs0 [RawNode ''B'']]"
    by blast
  from t d have 4: "condChildren (splitNodes ([RawNode ''A''] @ Node TypeDiv attrs0 [] # [RawNode ''B'']
         @ Node TypeDiv attrs0 [] # [RawNode ''C'']))
       = [Node TypeCondTrue attrs0 [RawNode ''A''], Node TypeCondFalse attrs0 [RawNode ''B'']]"
    by blast
  from p 1 2 3 4 show ?thesis by simp
qed

text \<open>
  C4 as stated fails for a body with two dividers:
  \<^verbatim>\<open>{% if a == 1 %}A{% else %}B{% else %}C{% endif %}\<close> is parsed without an error, and the
  condition has the branches \<^verbatim>\<open>A\<close> and \<^verbatim>\<open>B\<close>.
\<close>

theorem C4_second_divider_counterexample:
  "Parse demo_pkg ''{% if a == 1 %}A{% else %}B{% else %}C{% endif %}'' False =
   Some ([Node TypeCond (attrs0\<lparr>condL := ''a'', condR := ''1'', condRStatic := True, condOp := OpEq\<rparr>)
            [Node TypeCondTrue attrs0 [RawNode ''A''], Node TypeCondFalse attrs0 [RawNode ''B'']]], None)"
  by (simp add: parse_defs kw_defs re_defs Let_def RawNode_def attrs0_def)

end
